theory Spec2Isabelle
  imports Complex_Main "HOL-Library.Word" "HOL-Library.Sublist"
begin

unbundle bit_operations_syntax


section \<open>C integer arithmetic\<close>

text \<open>
  C's \<open>%\<close> on \<open>int\<close> truncates towards zero, whereas \<open>mod\<close> on \<open>int\<close> in HOL
  rounds towards minus infinity. The two agree on a non-negative dividend and a positive
  divisor, which is the only case the ring indices of the program reach. A zero divisor
  is undefined behaviour in C and is excluded by the hypotheses of the theorems below.
\<close>

definition c_rem :: "int \<Rightarrow> int \<Rightarrow> int" where
  "c_rem a b = a - b * (sgn a * sgn b * (\<bar>a\<bar> div \<bar>b\<bar>))"

section \<open>Circular sample buffer (04-07-2025/client.c, lines 43-49 and 163-198)\<close>

text \<open>
  \<open>data\<close> is the heap block of the buffer; \<open>None\<close> is the \<open>NULL\<close> pointer (before
  \<open>init_circular_buffer\<close> or after \<open>free_circular_buffer\<close>). The element type is
  \<open>double\<close> in the source; the buffer never inspects its elements, so the model is
  polymorphic in it.
\<close>

record 'a CircularBuffer =
  data :: "'a list option"
  head :: int
  tail :: int
  count :: int
  max_size :: int

text \<open>
  \<open>malloc\<close> returns a block of indeterminate content: \<open>junk\<close> stands for that content.
  A failed allocation ends the process (\<open>exit(EXIT_FAILURE)\<close>), so a returned buffer
  always owns a block.
\<close>

definition init_circular_buffer :: "'a \<Rightarrow> int \<Rightarrow> 'a CircularBuffer" where
  "init_circular_buffer junk n =
     \<lparr> data = Some (replicate (nat n) junk), head = 0, tail = 0, count = 0, max_size = n \<rparr>"

definition free_circular_buffer :: "'a CircularBuffer \<Rightarrow> 'a CircularBuffer" where
  "free_circular_buffer cb = cb \<lparr> data := None \<rparr>"

definition append_circular_buffer :: "'a CircularBuffer \<Rightarrow> 'a \<Rightarrow> 'a CircularBuffer" where
  "append_circular_buffer cb v =
     (case data cb of
        None \<Rightarrow> cb
      | Some d \<Rightarrow>
          let cb1 = cb \<lparr> data := Some (d[nat (tail cb) := v]) \<rparr>;
              cb2 = cb1 \<lparr> tail := c_rem (tail cb1 + 1) (max_size cb1) \<rparr>
          in if count cb2 < max_size cb2
             then cb2 \<lparr> count := count cb2 + 1 \<rparr>
             else cb2 \<lparr> head := c_rem (head cb2 + 1) (max_size cb2) \<rparr>)"

text \<open>
  The snapshot takes the buffer by pointer, so the model returns the buffer next to the
  copy and the length written to \<open>*actual_len\<close>. \<open>alloc_ok\<close> says whether the
  \<open>malloc\<close> of the copy succeeds. \<open>memcpy(dst, data + i, k)\<close> is \<open>take k (drop i d)\<close>;
  it stays inside the block on every buffer built by the two operations above.
\<close>

definition get_circular_buffer_snapshot ::
  "bool \<Rightarrow> 'a CircularBuffer \<Rightarrow> 'a list option \<times> int \<times> 'a CircularBuffer" where
  "get_circular_buffer_snapshot alloc_ok cb =
     (let actual_len = count cb in
      if count cb = 0 then (None, actual_len, cb)
      else if \<not> alloc_ok then (None, actual_len, cb)
      else case data cb of
             None \<Rightarrow> (None, actual_len, cb)
           | Some d \<Rightarrow>
               if head cb < tail cb
               then (Some (take (nat (count cb)) (drop (nat (head cb)) d)), actual_len, cb)
               else let part1_len = max_size cb - head cb
                    in (Some (take (nat part1_len) (drop (nat (head cb)) d) @ take (nat (tail cb)) d),
                        actual_len, cb))"

text \<open>A trace of buffer operations: re-initialisation with a capacity, or one append.\<close>

datatype 'a cb_op = Init int | Append 'a

fun apply_cb_op :: "'a \<Rightarrow> 'a CircularBuffer \<Rightarrow> 'a cb_op \<Rightarrow> 'a CircularBuffer" where
  "apply_cb_op junk cb (Init n) = init_circular_buffer junk n"
| "apply_cb_op junk cb (Append v) = append_circular_buffer cb v"

text \<open>
  The state reached from a fresh buffer of capacity \<open>c\<close> by appending \<open>vs\<close> in order:
  every one of the last \<open>c\<close> values sits in the cell its position selects.
\<close>

definition cb_after :: "nat \<Rightarrow> 'a list \<Rightarrow> 'a CircularBuffer \<Rightarrow> bool" where
  "cb_after c vs cb \<longleftrightarrow>
     (\<exists>d. data cb = Some d \<and> length d = c \<and>
          (\<forall>m < length vs. length vs \<le> m + c \<longrightarrow> d ! (m mod c) = vs ! m)) \<and>
     max_size cb = int c \<and>
     tail cb = int (length vs mod c) \<and>
     count cb = int (min (length vs) c) \<and>
     head cb = (if length vs < c then 0 else int (length vs mod c))"

text \<open>The structural invariant of a buffer with a positive capacity.\<close>

definition cb_inv :: "'a CircularBuffer \<Rightarrow> bool" where
  "cb_inv cb \<longleftrightarrow>
     0 < max_size cb \<and> 0 \<le> count cb \<and> count cb \<le> max_size cb \<and>
     0 \<le> head cb \<and> head cb < max_size cb \<and>
     tail cb = (head cb + count cb) mod max_size cb"

section \<open>Floating-point samples\<close>

text \<open>
  A \<open>double\<close> is modelled as a real number or \<open>NaN\<close>. Rounding and the infinities are
  not modelled: arithmetic on numbers is exact, and \<open>NaN\<close> propagates through every
  operation, as in IEEE 754. The properties proved below depend on which branch the code
  takes and on whether a value is \<open>NaN\<close>, not on the rounding of a result. Every
  division of the program is guarded by a test that the divisor is not zero; an
  unguarded division by zero would be an infinity or \<open>NaN\<close> and is \<open>NaN\<close> here.
\<close>

datatype double = NaN | Fin real

fun isnan :: "double \<Rightarrow> bool" where
  "isnan NaN = True"
| "isnan (Fin x) = False"

fun d_add :: "double \<Rightarrow> double \<Rightarrow> double" where
  "d_add (Fin a) (Fin b) = Fin (a + b)"
| "d_add a b = NaN"

fun d_sub :: "double \<Rightarrow> double \<Rightarrow> double" where
  "d_sub (Fin a) (Fin b) = Fin (a - b)"
| "d_sub a b = NaN"

fun d_mul :: "double \<Rightarrow> double \<Rightarrow> double" where
  "d_mul (Fin a) (Fin b) = Fin (a * b)"
| "d_mul a b = NaN"

fun d_div :: "double \<Rightarrow> double \<Rightarrow> double" where
  "d_div (Fin a) (Fin b) = (if b = 0 then NaN else Fin (a / b))"
| "d_div a b = NaN"

text \<open>\<open>x <= 0\<close> on doubles: false when \<open>x\<close> is \<open>NaN\<close>.\<close>

fun d_le_zero :: "double \<Rightarrow> bool" where
  "d_le_zero (Fin a) = (a \<le> 0)"
| "d_le_zero NaN = False"

definition d_of_int :: "int \<Rightarrow> double" where
  "d_of_int i = Fin (real_of_int i)"

text \<open>
  The cast \<open>(int)x\<close> truncates towards zero. It is undefined on \<open>NaN\<close> and outside the
  range of \<open>int\<close>; the samples it is applied to were converted from \<open>int\<close> when the
  batch was parsed.
\<close>

fun d_to_int :: "double \<Rightarrow> int" where
  "d_to_int (Fin x) = (if 0 \<le> x then \<lfloor>x\<rfloor> else \<lceil>x\<rceil>)"
| "d_to_int NaN = 0"

section \<open>Calibration (04-07-2025/client.c lines 29-38 and 201-211, 11-07-2025/c2.c lines 368-372)\<close>

definition ADC_MAX_VAL :: double where
  "ADC_MAX_VAL = Fin 2147483648"

definition PLOT_BUFFER_SIZE :: int where "PLOT_BUFFER_SIZE = 500"
definition DSP_BUFFER_SIZE :: int where "DSP_BUFFER_SIZE = 500"
definition FFT_WINDOW_SIZE :: int where "FFT_WINDOW_SIZE = 256"
definition FIR_NUM_TAPS :: int where "FIR_NUM_TAPS = 51"

text \<open>The calibration constants the two clients are compiled with.\<close>

definition client_ZERO_CAL :: real where "client_ZERO_CAL = 1823035255075 / 10 ^ 14"
definition client_SCALE_CAL :: real where "client_SCALE_CAL = 451794631 / 10 ^ 14"
definition c2_ZERO_CAL :: real where "c2_ZERO_CAL = - 6981067708 / 10 ^ 13"
definition c2_SCALE_CAL :: real where "c2_SCALE_CAL = 452466566 / 10 ^ 14"

text \<open>
  \<open>ZERO_CAL\<close> and \<open>SCALE_CAL\<close> are compile-time constants of the source; they are
  parameters here so that the guard on a zero \<open>SCALE_CAL\<close> can be exercised.
  \<open>normalize_to_weights\<close> (client.c) returns \<open>NULL\<close>, here \<open>None\<close>, for an empty
  input or when its \<open>malloc\<close> fails.
\<close>

definition normalize_to_weights :: "real \<Rightarrow> real \<Rightarrow> bool \<Rightarrow> int list \<Rightarrow> double list option" where
  "normalize_to_weights zero_cal scale_cal alloc_ok values =
     (if values = [] then None
      else if \<not> alloc_ok then None
      else Some (map (\<lambda>v. let data_in = d_div (d_of_int v) ADC_MAX_VAL
                         in if scale_cal \<noteq> 0
                            then d_div (d_sub data_in (Fin zero_cal)) (Fin scale_cal)
                            else NaN) values))"

text \<open>\<open>normalize_to_weight\<close> (c2.c): one value; \<open>(double)0x80000000\<close> is \<open>2^31\<close>.\<close>

definition normalize_to_weight :: "real \<Rightarrow> real \<Rightarrow> int \<Rightarrow> double" where
  "normalize_to_weight zero_cal scale_cal adc_value =
     (let data_in = d_div (d_of_int adc_value) (Fin 2147483648)
      in if scale_cal = 0 then Fin 0
         else d_div (d_sub data_in (Fin zero_cal)) (Fin scale_cal))"

section \<open>DSP stage (04-07-2025/client.c lines 213-283)\<close>

text \<open>Each function returns \<open>None\<close> where the source returns \<open>NULL\<close>.\<close>

definition remove_dc_offset_temp :: "bool \<Rightarrow> double list \<Rightarrow> double list option \<times> int" where
  "remove_dc_offset_temp alloc_ok values =
     (let num_values = int (length values) in
      if num_values = 0 then (None, num_values)
      else if \<not> alloc_ok then (None, num_values)
      else let sum = foldl (\<lambda>s v. if \<not> isnan v then d_add s v else s) (Fin 0) values;
               nan_count = int (length (filter isnan values))
           in if num_values - nan_count = 0
              then (Some (replicate (length values) NaN), num_values)
              else let mean = d_div sum (d_of_int (num_values - nan_count))
                   in (Some (map (\<lambda>v. d_sub v mean) values), num_values))"

text \<open>Result: frequencies, magnitudes, dominant frequency, \<open>fft_len\<close>.\<close>

definition compute_fft ::
  "bool \<Rightarrow> double list \<Rightarrow> double \<Rightarrow> double list option \<times> double list option \<times> double \<times> int" where
  "compute_fft alloc_ok values sampling_rate =
     (let num_values = int (length values); fft_len = num_values div 2 in
      if num_values < 2 then (None, None, Fin 0, 0)
      else if \<not> alloc_ok then (None, None, Fin 0, 0)
      else let frequencies = map (\<lambda>i. d_div (d_mul (d_of_int (int i)) sampling_rate) (d_of_int num_values))
                               [0 ..< nat fft_len];
               magnitude = replicate (nat fft_len) (Fin 1)
           in (Some frequencies, Some magnitude,
               (if fft_len > 1 then frequencies ! 1 else Fin 0), fft_len))"

text \<open>Result: filtered values, coefficients, \<open>filtered_len\<close>, \<open>coeff_len\<close>.\<close>

definition fir_filter ::
  "bool \<Rightarrow> double list \<Rightarrow> double \<Rightarrow> double \<Rightarrow> double list option \<times> double list option \<times> int \<times> int" where
  "fir_filter alloc_ok values cut_off_frequency sampling_rate =
     (if values = [] \<or> d_le_zero sampling_rate then (None, None, 0, 0)
      else if \<not> alloc_ok then (None, None, 0, 0)
      else let filtered_values = values;
               zeros = replicate (nat FIR_NUM_TAPS) (Fin 0);
               fir_coefficients = (if FIR_NUM_TAPS > 0 then zeros[nat (FIR_NUM_TAPS div 2) := Fin 1] else zeros)
           in (Some filtered_values, Some fir_coefficients, int (length values), FIR_NUM_TAPS))"

section \<open>Per-sample processing step (04-07-2025/client.c lines 79-102 and 845-945)\<close>

record FileProcessingState =
  current_file_raw_adc_values :: "double list"
  current_file_num_samples :: int
  current_file_interval_ms :: int
  current_file_name :: string
  current_file_index :: int
  is_processing_file :: bool
  all_raw_weights_to_save :: "double list"
  all_filtered_weights_to_save :: "double list"
  last_fir_coefficients_to_save :: "double list option"
  last_fir_coefficients_len_to_save :: int
  last_fft_frequencies_to_save :: "double list option"
  last_fft_frequencies_len_to_save :: int
  last_fft_magnitude_to_save :: "double list option"
  last_fft_magnitude_len_to_save :: int

text \<open>The three global buffers and the global file state.\<close>

record pipeline =
  current_raw_buffer :: "double CircularBuffer"
  current_filtered_buffer :: "double CircularBuffer"
  dsp_raw_adc_buffer :: "double CircularBuffer"
  g_file_state :: FileProcessingState

text \<open>Which of the allocations of one step succeed, in the order the step makes them.\<close>

record alloc_env =
  weights_ok :: bool
  raw_save_ok :: bool
  snapshot_ok :: bool
  dc_ok :: bool
  fft_ok :: bool
  fir_ok :: bool
  filtered_save_ok :: bool

text \<open>
  How one call of \<open>process_data_gui_callback\<close> leaves the sample branch: the sample was
  processed (\<open>G_SOURCE_CONTINUE\<close>), a \<open>realloc\<close> failed (\<open>goto
  cleanup_current_file_on_error\<close>), the DSP snapshot could not be taken (\<open>goto
  end_processing_loop_return_continue\<close>), the file has no sample left, or no file is
  being processed. The code behind the two labels (freeing the file, polling the queue)
  is not part of this step.
\<close>

datatype tick =
    Processed pipeline
  | Cleanup_on_error pipeline
  | Snapshot_failed pipeline
  | File_finished
  | Not_processing

text \<open>
  Lines 876-920: the values \<open>filtered_weight_for_plot\<close> and \<open>filtered_weight_to_save\<close>
  (always equal in the source) with the updated file state; \<open>None\<close> is the \<open>goto\<close> of
  line 883.
\<close>

definition dsp_stage ::
  "alloc_env \<Rightarrow> double CircularBuffer \<Rightarrow> FileProcessingState \<Rightarrow> double
     \<Rightarrow> (double \<times> FileProcessingState) option" where
  "dsp_stage env dsp fs current_raw_weight =
     (let sampling_rate = (if current_file_interval_ms fs > 0
                           then d_div (Fin 1000) (d_of_int (current_file_interval_ms fs)) else Fin 1);
          min_dsp_samples = (if FIR_NUM_TAPS > FFT_WINDOW_SIZE then FIR_NUM_TAPS else FFT_WINDOW_SIZE)
      in if count dsp \<ge> min_dsp_samples
         then (case get_circular_buffer_snapshot (snapshot_ok env) dsp of
                 (None, dsp_snapshot_len, cb) \<Rightarrow> None
               | (Some snapshot, dsp_snapshot_len, cb) \<Rightarrow>
                   (case remove_dc_offset_temp (dc_ok env) snapshot of
                      (None, processed_len) \<Rightarrow> Some (current_raw_weight, fs)
                    | (Some window, processed_len) \<Rightarrow>
                        (case compute_fft (fft_ok env) window sampling_rate of
                           (freqs, mags, dom_freq, fft_len) \<Rightarrow>
                             (case fir_filter (fir_ok env) window dom_freq sampling_rate of
                                (filtered, coeffs, filtered_segment_len, coeff_len) \<Rightarrow>
                                  let fs' = fs \<lparr> last_fft_frequencies_to_save := freqs,
                                                last_fft_magnitude_to_save := mags,
                                                last_fft_frequencies_len_to_save := fft_len,
                                                last_fft_magnitude_len_to_save := fft_len,
                                                last_fir_coefficients_to_save := coeffs,
                                                last_fir_coefficients_len_to_save := coeff_len \<rparr>
                                  in (case filtered of
                                        None \<Rightarrow> Some (current_raw_weight, fs')
                                      | Some seg \<Rightarrow>
                                          if filtered_segment_len > 0
                                          then Some (seg ! nat (filtered_segment_len - 1), fs')
                                          else Some (current_raw_weight, fs'))))))
         else Some (current_raw_weight, fs))"

text \<open>
  The sample the step reads, \<open>current_file_raw_adc_values[current_file_index]\<close>, and
  the weight it derives from it (\<open>NaN\<close> when \<open>normalize_to_weights\<close> returns \<open>NULL\<close>).
\<close>

definition current_raw_adc :: "pipeline \<Rightarrow> double" where
  "current_raw_adc p =
     current_file_raw_adc_values (g_file_state p) ! nat (current_file_index (g_file_state p))"

definition current_raw_weight :: "real \<Rightarrow> real \<Rightarrow> alloc_env \<Rightarrow> pipeline \<Rightarrow> double" where
  "current_raw_weight zero_cal scale_cal env p =
     (case normalize_to_weights zero_cal scale_cal (weights_ok env) [d_to_int (current_raw_adc p)] of
        None \<Rightarrow> NaN
      | Some ws \<Rightarrow> ws ! 0)"

text \<open>Lines 849-944, for a file that is being processed and has a sample left.\<close>

definition process_sample :: "real \<Rightarrow> real \<Rightarrow> alloc_env \<Rightarrow> pipeline \<Rightarrow> tick" where
  "process_sample zero_cal scale_cal env p =
     (let fs = g_file_state p;
          dsp = append_circular_buffer (dsp_raw_adc_buffer p) (current_raw_adc p);
          weight = current_raw_weight zero_cal scale_cal env p;
          p1 = p \<lparr> dsp_raw_adc_buffer := dsp,
                   current_raw_buffer := append_circular_buffer (current_raw_buffer p) weight \<rparr>
      in if \<not> raw_save_ok env then Cleanup_on_error p1
         else let fs1 = fs \<lparr> all_raw_weights_to_save := all_raw_weights_to_save fs @ [weight] \<rparr>
              in case dsp_stage env dsp fs1 weight of
                   None \<Rightarrow> Snapshot_failed (p1 \<lparr> g_file_state := fs1 \<rparr>)
                 | Some (filtered_weight, fs2) \<Rightarrow>
                     let filtered_buffer =
                           (if count dsp \<ge> FIR_NUM_TAPS
                            then append_circular_buffer (current_filtered_buffer p) filtered_weight
                            else append_circular_buffer (current_filtered_buffer p) NaN);
                         p2 = p1 \<lparr> current_filtered_buffer := filtered_buffer \<rparr>
                     in if \<not> filtered_save_ok env then Cleanup_on_error (p2 \<lparr> g_file_state := fs2 \<rparr>)
                        else Processed (p2 \<lparr> g_file_state :=
                               fs2 \<lparr> all_filtered_weights_to_save :=
                                        all_filtered_weights_to_save fs2 @ [filtered_weight],
                                      current_file_index := current_file_index fs2 + 1 \<rparr> \<rparr>))"

definition process_data_gui_callback :: "real \<Rightarrow> real \<Rightarrow> alloc_env \<Rightarrow> pipeline \<Rightarrow> tick" where
  "process_data_gui_callback zero_cal scale_cal env p =
     (if is_processing_file (g_file_state p)
      then if current_file_index (g_file_state p) < current_file_num_samples (g_file_state p)
           then process_sample zero_cal scale_cal env p
           else File_finished
      else Not_processing)"

text \<open>
  The pipeline when a file has just been taken from the queue (lines 988-1001): the
  buffers allocated by \<open>main\<close> with their counters reset, and the file at sample 0.
\<close>

definition start_file :: "double list \<Rightarrow> int \<Rightarrow> string \<Rightarrow> pipeline" where
  "start_file samples interval name =
     \<lparr> current_raw_buffer = init_circular_buffer (Fin 0) PLOT_BUFFER_SIZE,
       current_filtered_buffer = init_circular_buffer (Fin 0) PLOT_BUFFER_SIZE,
       dsp_raw_adc_buffer = init_circular_buffer (Fin 0) DSP_BUFFER_SIZE,
       g_file_state =
         \<lparr> current_file_raw_adc_values = samples,
           current_file_num_samples = int (length samples),
           current_file_interval_ms = interval,
           current_file_name = name,
           current_file_index = 0,
           is_processing_file = True,
           all_raw_weights_to_save = [],
           all_filtered_weights_to_save = [],
           last_fir_coefficients_to_save = None,
           last_fir_coefficients_len_to_save = 0,
           last_fft_frequencies_to_save = None,
           last_fft_frequencies_len_to_save = 0,
           last_fft_magnitude_to_save = None,
           last_fft_magnitude_len_to_save = 0 \<rparr> \<rparr>"

text \<open>The pipeline a call of the callback leaves behind, where it reached the sample branch.\<close>

fun tick_pipeline :: "tick \<Rightarrow> pipeline option" where
  "tick_pipeline (Processed p) = Some p"
| "tick_pipeline (Cleanup_on_error p) = Some p"
| "tick_pipeline (Snapshot_failed p) = Some p"
| "tick_pipeline File_finished = None"
| "tick_pipeline Not_processing = None"

text \<open>Every allocation succeeds.\<close>

definition all_ok :: alloc_env where
  "all_ok = \<lparr> weights_ok = True, raw_save_ok = True, snapshot_ok = True, dc_ok = True,
              fft_ok = True, fir_ok = True, filtered_save_ok = True \<rparr>"

text \<open>
  The filtered-plot buffer, oldest value first, and the number of samples in the DSP
  window, as one call of the callback leaves them.
\<close>

definition filtered_plot :: "tick \<Rightarrow> double list option" where
  "filtered_plot t =
     (case tick_pipeline t of
        None \<Rightarrow> None
      | Some p \<Rightarrow> fst (get_circular_buffer_snapshot True (current_filtered_buffer p)))"

definition dsp_window_count :: "tick \<Rightarrow> int option" where
  "dsp_window_count t = map_option (\<lambda>p. count (dsp_raw_adc_buffer p)) (tick_pipeline t)"

text \<open>
  The pipeline after 50 samples of a file of 51 samples, each of raw value 1000, received
  at an interval of 20 ms: the raw-plot buffer holds 50 weights, the filtered-plot buffer
  50 \<open>NaN\<close>, the DSP window the 50 raw values.
\<close>

definition weight_1000 :: real where
  "weight_1000 = (1000 / 2 ^ 31 - client_ZERO_CAL) / client_SCALE_CAL"

definition pipeline_after_50 :: pipeline where
  "pipeline_after_50 =
     \<lparr> current_raw_buffer =
         foldl append_circular_buffer (init_circular_buffer (Fin 0) PLOT_BUFFER_SIZE)
           (replicate 50 (Fin weight_1000)),
       current_filtered_buffer =
         foldl append_circular_buffer (init_circular_buffer (Fin 0) PLOT_BUFFER_SIZE)
           (replicate 50 NaN),
       dsp_raw_adc_buffer =
         foldl append_circular_buffer (init_circular_buffer (Fin 0) DSP_BUFFER_SIZE)
           (replicate 50 (Fin 1000)),
       g_file_state =
         \<lparr> current_file_raw_adc_values = replicate 51 (Fin 1000),
           current_file_num_samples = 51,
           current_file_interval_ms = 20,
           current_file_name = ''f1.txt'',
           current_file_index = 50,
           is_processing_file = True,
           all_raw_weights_to_save = replicate 50 (Fin weight_1000),
           all_filtered_weights_to_save = replicate 50 (Fin weight_1000),
           last_fir_coefficients_to_save = None,
           last_fir_coefficients_len_to_save = 0,
           last_fft_frequencies_to_save = None,
           last_fft_frequencies_len_to_save = 0,
           last_fft_magnitude_to_save = None,
           last_fft_magnitude_len_to_save = 0 \<rparr> \<rparr>"


section \<open>Producer/consumer queue (04-07-2025/client.c lines 64-76, 458-484 and 980-985)\<close>

record QueuedData =
  raw_adc_values :: "double list"
  num_samples :: int
  interval_ms :: int
  file_name :: string

text \<open>
  The global array \<open>data_queue[10]\<close> of pointers with its three counters. A slot is
  \<open>None\<close> until a batch is stored in it.
\<close>

record queue =
  data_queue :: "QueuedData option list"
  queue_head :: int
  queue_tail :: int
  queue_count :: int

definition empty_queue :: queue where
  "empty_queue = \<lparr> data_queue = replicate 10 None, queue_head = 0, queue_tail = 0, queue_count = 0 \<rparr>"

text \<open>
  Lines 458-484 of \<open>network_thread_func\<close>: the parsed batch is stored if it has samples,
  the queue has room and the \<open>malloc\<close> of the item succeeds. The result says whether
  the batch was stored; otherwise it is freed. Between \<open>EnterCriticalSection\<close> and
  \<open>LeaveCriticalSection\<close> the code has no loop and no wait.
\<close>

definition queue_put ::
  "bool \<Rightarrow> queue \<Rightarrow> double list option \<Rightarrow> int \<Rightarrow> int \<Rightarrow> string \<Rightarrow> bool \<times> queue" where
  "queue_put alloc_ok q raw_values raw_adc_count interval name =
     (case raw_values of
        None \<Rightarrow> (False, q)
      | Some vals \<Rightarrow>
          if raw_adc_count > 0
          then if queue_count q < 10
               then if \<not> alloc_ok then (False, q)
                    else let data_item = \<lparr> raw_adc_values = vals, num_samples = raw_adc_count,
                                           interval_ms = interval, file_name = take 255 name \<rparr>
                         in (True, q \<lparr> data_queue := (data_queue q)[nat (queue_tail q) := Some data_item],
                                      queue_tail := c_rem (queue_tail q + 1) 10,
                                      queue_count := queue_count q + 1 \<rparr>)
               else (False, q)
          else (False, q))"

text \<open>Lines 980-985 of \<open>process_data_gui_callback\<close>: the oldest batch, if there is one.\<close>

definition queue_take :: "queue \<Rightarrow> QueuedData option \<times> queue" where
  "queue_take q =
     (if queue_count q > 0
      then (data_queue q ! nat (queue_head q),
            q \<lparr> queue_head := c_rem (queue_head q + 1) 10, queue_count := queue_count q - 1 \<rparr>)
      else (None, q))"

text \<open>The batches a queue holds, oldest first.\<close>

definition queue_items :: "queue \<Rightarrow> QueuedData option list" where
  "queue_items q =
     map (\<lambda>i. data_queue q ! nat (c_rem (queue_head q + int i) 10)) [0 ..< nat (queue_count q)]"

text \<open>A queue that holds ten batches named \<open>0\<close> to \<open>9\<close>.\<close>

definition full_queue :: queue where
  "full_queue =
     \<lparr> data_queue = map (\<lambda>c. Some \<lparr> raw_adc_values = [Fin 1000], num_samples = 1,
                                    interval_ms = 20, file_name = [c] \<rparr>) ''0123456789'',
       queue_head = 0, queue_tail = 0, queue_count = 10 \<rparr>"


section \<open>Bytes, C strings and byte order\<close>

text \<open>
  A byte is a \<open>char\<close>, a buffer is a \<open>string\<close>. A buffer that the code treats as a
  C string ends at its first \<open>NUL\<close>.
\<close>

type_synonym uint32_t = "32 word"
type_synonym uint64_t = "64 word"

definition NUL :: char where
  "NUL = CHR 0x00"

definition cstr :: "string \<Rightarrow> string" where
  "cstr buf = takeWhile (\<lambda>c. c \<noteq> NUL) buf"

text \<open>
  The hosts are little-endian (x86 Windows for the server and client.c, Linux for c2.c):
  the memory image of an integer is its bytes from the least significant one, and
  \<open>htonl\<close> reverses the four bytes of its argument.
\<close>

definition byte_at :: "'a::len word \<Rightarrow> nat \<Rightarrow> char" where
  "byte_at w i = char_of (unat (drop_bit (8 * i) w AND 0xFF))"

definition mem_le :: "nat \<Rightarrow> 'a::len word \<Rightarrow> string" where
  "mem_le n w = map (byte_at w) [0 ..< n]"

definition load_le :: "string \<Rightarrow> 'a::len word" where
  "load_le buf = foldr (\<lambda>c acc. of_char c OR push_bit 8 acc) buf 0"

definition htonl :: "uint32_t \<Rightarrow> uint32_t" where
  "htonl x = load_le (rev (mem_le 4 x))"

definition ntohl :: "uint32_t \<Rightarrow> uint32_t" where
  "ntohl x = load_le (rev (mem_le 4 x))"

text \<open>server.c lines 45-47.\<close>

definition htobe64_custom :: "uint64_t \<Rightarrow> uint64_t" where
  "htobe64_custom host_val =
     push_bit 32 (ucast (htonl (ucast (host_val AND 0xFFFFFFFF)))) OR
     ucast (htonl (ucast (drop_bit 32 host_val)))"

text \<open>
  c2.c lines 57-61. Where \<open><endian.h>\<close> provides \<open>be64toh\<close>, that one is used; on a
  little-endian host it is the same reversal of the eight bytes.
\<close>

definition be64toh_custom :: "uint64_t \<Rightarrow> uint64_t" where
  "be64toh_custom big_endian_val =
     push_bit 32 (ucast (ntohl (ucast (big_endian_val AND 0xFFFFFFFF)))) OR
     ucast (ntohl (ucast (drop_bit 32 big_endian_val)))"

text \<open>client.c lines 115-117.\<close>

definition ntohll_custom :: "uint64_t \<Rightarrow> uint64_t" where
  "ntohll_custom val =
     push_bit 32 (ucast (ntohl (ucast (val AND 0xFFFFFFFF)))) OR
     ucast (htonl (ucast (drop_bit 32 val)))"

text \<open>Conversions between \<open>size_t\<close> (64 bits), \<open>ssize_t\<close> and \<open>int\<close> (32 bits).\<close>

definition ssize_t_of :: "nat \<Rightarrow> int" where
  "ssize_t_of n = sint (word_of_nat n :: 64 word)"

definition int_of_size :: "nat \<Rightarrow> int" where
  "int_of_size n = sint (word_of_nat n :: 32 word)"

section \<open>Stream sockets\<close>

text \<open>
  The receiving side of a connection is the finite sequence of events that follow: the
  arrival of some bytes, or an error. When the sequence is exhausted the peer has closed
  the connection and \<open>recv\<close> returns 0. An arrival of no bytes is not visible to
  \<open>recv\<close>. A peer that neither sends nor closes, on which \<open>recv\<close> would block for
  ever, is not described by a finite sequence and is outside the model.

  \<open>recv s n\<close> is the return value, the bytes stored in the buffer and the rest of the
  stream: at most \<open>n\<close> bytes of the arrival at the front, the remainder of which stays
  in the stream.
\<close>

datatype event = Data string | Error

type_synonym stream = "event list"

fun recv :: "stream \<Rightarrow> nat \<Rightarrow> int \<times> string \<times> stream" where
  "recv [] n = (0, [], [])"
| "recv (Error # s) n = (- 1, [], s)"
| "recv (Data bs # s) n =
     (if bs = [] then recv s n
      else let k = min n (length bs)
           in (int k, take k bs, if k < length bs then Data (drop k bs) # s else s))"

text \<open>The bytes a stream delivers before its first error or its end.\<close>

fun avail :: "stream \<Rightarrow> string" where
  "avail [] = []"
| "avail (Error # s) = []"
| "avail (Data bs # s) = bs @ avail s"

text \<open>
  \<open>recv_all\<close> (c2.c lines 201-212). The result is the return value, the content of
  \<open>buf\<close> written so far and the rest of the stream.
\<close>

function recv_all_loop :: "stream \<Rightarrow> nat \<Rightarrow> nat \<Rightarrow> string \<Rightarrow> int \<times> string \<times> stream" where
  "recv_all_loop s len total_received buf =
     (if total_received < len
      then (case recv s (len - total_received) of
              (bytes_received, bs, s') \<Rightarrow>
                if bytes_received \<le> 0 then (bytes_received, buf, s')
                else recv_all_loop s' len (total_received + nat bytes_received) (buf @ bs))
      else (ssize_t_of total_received, buf, s))"
  by pat_completeness auto
termination
  by (relation "measure (\<lambda>(s, len, total_received, buf). len - total_received)") auto

declare recv_all_loop.simps [simp del]

definition recv_all :: "stream \<Rightarrow> nat \<Rightarrow> int \<times> string \<times> stream" where
  "recv_all s len = recv_all_loop s len 0 []"

text \<open>
  \<open>recvall\<close> (client.c lines 326-334): the length passed to \<open>recv\<close> and the value
  returned are cast to \<open>int\<close>. A length that is not positive after the cast makes
  \<open>recv\<close> deliver nothing.
\<close>

function recvall_loop :: "stream \<Rightarrow> nat \<Rightarrow> nat \<Rightarrow> string \<Rightarrow> int \<times> string \<times> stream" where
  "recvall_loop s len total_received buf =
     (if total_received < len
      then (case recv s (nat (int_of_size (len - total_received))) of
              (bytes_received, bs, s') \<Rightarrow>
                if bytes_received \<le> 0 then (- 1, buf, s')
                else recvall_loop s' len (total_received + nat bytes_received) (buf @ bs))
      else (int_of_size total_received, buf, s))"
  by pat_completeness auto
termination
  by (relation "measure (\<lambda>(s, len, total_received, buf). len - total_received)") auto

declare recvall_loop.simps [simp del]

definition recvall :: "stream \<Rightarrow> nat \<Rightarrow> int \<times> string \<times> stream" where
  "recvall s len = recvall_loop s len 0 []"

text \<open>
  The sending side: the bytes sent so far, and the number of calls of \<open>send\<close> that
  will still succeed before the connection breaks. A call sends all its bytes or
  fails with \<open>SOCKET_ERROR\<close>.
\<close>

record sock =
  sent :: string
  sends_left :: nat

definition send :: "sock \<Rightarrow> string \<Rightarrow> bool \<times> sock" where
  "send sk bytes =
     (if sends_left sk = 0 then (False, sk)
      else (True, sk \<lparr> sent := sent sk @ bytes, sends_left := sends_left sk - 1 \<rparr>))"

section \<open>String functions of the C library\<close>

text \<open>\<open>strstr\<close>: the suffix of the haystack that starts at the first occurrence.\<close>

fun strstr :: "string \<Rightarrow> string \<Rightarrow> string option" where
  "strstr [] needle = (if needle = [] then Some [] else None)"
| "strstr (h # hay) needle =
     (if prefix needle (h # hay) then Some (h # hay) else strstr hay needle)"

text \<open>\<open>strrchr\<close>, as the server uses it: the text behind the last occurrence of a character.\<close>

definition after_last :: "char \<Rightarrow> string \<Rightarrow> string option" where
  "after_last c path =
     (if c \<in> set path then Some (rev (takeWhile (\<lambda>x. x \<noteq> c) (rev path))) else None)"

definition isspace :: "char \<Rightarrow> bool" where
  "isspace c \<longleftrightarrow> c \<in> set [CHR '' '', CHR 0x09, CHR 0x0A, CHR 0x0B, CHR 0x0C, CHR 0x0D]"

definition isdigit :: "char \<Rightarrow> bool" where
  "isdigit c \<longleftrightarrow> c \<in> set ''0123456789''"

definition digit_val :: "char \<Rightarrow> int" where
  "digit_val c = int (of_char c) - 48"

definition digits_val :: "string \<Rightarrow> int" where
  "digits_val ds = foldl (\<lambda>a d. 10 * a + digit_val d) 0 ds"

text \<open>
  The conversion \<open>%d\<close> of \<open>sscanf\<close>: white space is skipped, then an optional sign and
  the longest run of digits are read. \<open>None\<close>: no digit, nothing is assigned.
\<close>

definition scan_d :: "string \<Rightarrow> int option" where
  "scan_d input =
     (let t = dropWhile isspace input;
          (neg, u) = (case t of
                        c # r \<Rightarrow> if c = CHR ''-'' then (True, r)
                                 else if c = CHR ''+'' then (False, r) else (False, t)
                      | [] \<Rightarrow> (False, t));
          ds = takeWhile isdigit u
      in if ds = [] then None
         else Some (if neg then - digits_val ds else digits_val ds))"

text \<open>The conversion \<open>%s\<close>: white space is skipped, then the longest run without white space is read.\<close>

definition scan_s :: "string \<Rightarrow> string option" where
  "scan_s input =
     (let tok = takeWhile (\<lambda>c. \<not> isspace c) (dropWhile isspace input)
      in if tok = [] then None else Some tok)"

text \<open>\<open>strtok\<close> with one delimiter, called until it returns \<open>NULL\<close>: the non-empty pieces.\<close>

fun strtok_all :: "char \<Rightarrow> string \<Rightarrow> string \<Rightarrow> string list" where
  "strtok_all d cur [] = (if cur = [] then [] else [cur])"
| "strtok_all d cur (c # cs) =
     (if c = d then (if cur = [] then strtok_all d [] cs else cur # strtok_all d [] cs)
      else strtok_all d (cur @ [c]) cs)"


section \<open>Producer (11-07-2025/server.c)\<close>

definition FILENAME_LENGTH_BYTES :: nat where "FILENAME_LENGTH_BYTES = 4"
definition FILE_CONTENT_LENGTH_BYTES :: nat where "FILE_CONTENT_LENGTH_BYTES = 8"
definition CONFIG_LENGTH_BYTES :: nat where "CONFIG_LENGTH_BYTES = 4"
definition BUFFER_SIZE :: nat where "BUFFER_SIZE = 4096"

text \<open>\<open>send_control_message\<close> (lines 271-289): name length, name, a zero content length.\<close>

definition send_control_message :: "sock \<Rightarrow> string \<Rightarrow> sock" where
  "send_control_message client_sock message =
     (let msg_len = length message;
          net_msg_len = htonl (word_of_nat msg_len);
          net_zero_content_len = htobe64_custom 0
      in case send client_sock (mem_le FILENAME_LENGTH_BYTES net_msg_len) of
           (False, s1) \<Rightarrow> s1
         | (True, s1) \<Rightarrow>
             (case send s1 message of
                (False, s2) \<Rightarrow> s2
              | (True, s2) \<Rightarrow> snd (send s2 (mem_le FILE_CONTENT_LENGTH_BYTES net_zero_content_len))))"

text \<open>
  The value of \<open>ftell\<close> at the end of a file of \<open>n\<close> bytes. It is a \<open>long\<close>, which has
  32 bits on Windows; on a longer file the call fails with \<open>-1\<close>.
\<close>

definition ftell_end :: "nat \<Rightarrow> int" where
  "ftell_end n = (if n < 2 ^ 31 then int n else - 1)"

text \<open>Lines 254-263: the content is read and sent in pieces of \<open>BUFFER_SIZE\<close> bytes.\<close>

function send_content :: "sock \<Rightarrow> string \<Rightarrow> sock" where
  "send_content client_sock content =
     (let buffer = take BUFFER_SIZE content; bytes_read = length buffer
      in if bytes_read > 0
         then (case send client_sock buffer of
                 (False, s1) \<Rightarrow> s1
               | (True, s1) \<Rightarrow> send_content s1 (drop BUFFER_SIZE content))
         else client_sock)"
  by pat_completeness auto
termination
  by (relation "measure (\<lambda>(client_sock, content). length content)") (auto simp: BUFFER_SIZE_def)

declare send_content.simps [simp del]

text \<open>Lines 213-222: the file name is the part of the path behind its last separator.\<close>

definition path_filename :: "string \<Rightarrow> string" where
  "path_filename filepath =
     (case after_last (CHR ''/'') filepath of
        Some name \<Rightarrow> name
      | None \<Rightarrow> (case after_last (CHR 0x5C) filepath of
                   Some name \<Rightarrow> name
                 | None \<Rightarrow> filepath))"

text \<open>
  \<open>send_file_by_path\<close> (lines 205-268). \<open>file\<close> is the content of the file at the path,
  \<open>None\<close> if it cannot be opened.
\<close>

definition send_file_by_path :: "sock \<Rightarrow> string \<Rightarrow> string option \<Rightarrow> sock" where
  "send_file_by_path client_sock filepath file =
     (case file of
        None \<Rightarrow> send_control_message client_sock ''FILE_NOT_FOUND''
      | Some content \<Rightarrow>
          let filename = path_filename filepath;
              filename_len = length filename;
              net_filename_len = htonl (word_of_nat filename_len);
              file_content_len = (word_of_int (ftell_end (length content)) :: uint64_t);
              net_file_content_len = htobe64_custom file_content_len
          in case send client_sock (mem_le FILENAME_LENGTH_BYTES net_filename_len) of
               (False, s1) \<Rightarrow> s1
             | (True, s1) \<Rightarrow>
                 (case send s1 filename of
                    (False, s2) \<Rightarrow> s2
                  | (True, s2) \<Rightarrow>
                      (case send s2 (mem_le FILE_CONTENT_LENGTH_BYTES net_file_content_len) of
                         (False, s3) \<Rightarrow> s3
                       | (True, s3) \<Rightarrow> send_content s3 content)))"

text \<open>A connection on which nothing has been sent and no call of \<open>send\<close> fails early.\<close>

definition fresh_sock :: "nat \<Rightarrow> sock" where
  "fresh_sock n = \<lparr> sent = [], sends_left = n \<rparr>"

section \<open>Consumer of 11-07-2025/c2.c\<close>

text \<open>Lines 163-166: the names that end the reception.\<close>

definition c2_is_control :: "string \<Rightarrow> bool" where
  "c2_is_control filename \<longleftrightarrow>
     filename = ''END_OF_TRANSMISSION'' \<or>
     strstr filename ''NO_FILE_FOUND:'' \<noteq> None \<or>
     filename = ''NO_FILE_SELECTED'' \<or>
     filename = ''NO_FILES_IN_FOLDER''"

text \<open>
  Lines 134-160 of the loop of \<open>main\<close>: the header of a frame. \<open>Header\<close> carries the
  buffer \<open>filename\<close> (\<open>filename_len\<close> bytes) and \<open>file_content_len\<close>; the other results
  are the \<open>break\<close>s of the loop. \<open>alloc_ok\<close> says whether the \<open>malloc\<close> succeeds.
\<close>

datatype c2_header =
    Lost_filename_length
  | Filename_alloc_failed
  | Lost_filename
  | Lost_content_length
  | Header string nat

definition c2_read_header :: "bool \<Rightarrow> stream \<Rightarrow> c2_header \<times> stream" where
  "c2_read_header alloc_ok s =
     (case recv_all s FILENAME_LENGTH_BYTES of
        (r1, net_filename_len, s1) \<Rightarrow>
          if r1 \<le> 0 then (Lost_filename_length, s1)
          else let filename_len = unat (ntohl (load_le net_filename_len))
               in if \<not> alloc_ok then (Filename_alloc_failed, s1)
                  else (case recv_all s1 filename_len of
                          (r2, filename, s2) \<Rightarrow>
                            if r2 \<le> 0 then (Lost_filename, s2)
                            else (case recv_all s2 FILE_CONTENT_LENGTH_BYTES of
                                    (r3, net_file_content_len, s3) \<Rightarrow>
                                      if r3 \<le> 0 then (Lost_content_length, s3)
                                      else (Header filename
                                              (unat (be64toh_custom (load_le net_file_content_len))), s3))))"

text \<open>
  One iteration of the loop (lines 133-193): a control message and every failure leave
  the loop, a file is handed to \<open>process_data\<close>.
\<close>

datatype c2_frame =
    C2_stop c2_header
  | C2_control string
  | C2_content_alloc_failed
  | C2_lost_content
  | C2_file string string

definition c2_read_frame :: "bool \<Rightarrow> bool \<Rightarrow> stream \<Rightarrow> c2_frame \<times> stream" where
  "c2_read_frame alloc_ok content_alloc_ok s =
     (case c2_read_header alloc_ok s of
        (Header filename file_content_len, s3) \<Rightarrow>
          if c2_is_control (cstr filename) then (C2_control (cstr filename), s3)
          else if \<not> content_alloc_ok then (C2_content_alloc_failed, s3)
          else (case recv_all s3 file_content_len of
                  (r4, file_content, s4) \<Rightarrow>
                    if r4 \<le> 0 then (C2_lost_content, s4)
                    else (C2_file (cstr filename) (cstr file_content), s4))
      | (other, s') \<Rightarrow> (C2_stop other, s'))"

section \<open>Consumer of 04-07-2025/client.c\<close>

text \<open>
  Lines 390-404 of \<open>network_thread_func\<close>: the name of a frame is read into
  \<open>char file_name[256]\<close>. \<open>None\<close>: the connection was lost.
\<close>

definition client_read_filename :: "stream \<Rightarrow> string option \<times> stream" where
  "client_read_filename s =
     (case recvall s FILENAME_LENGTH_BYTES of
        (r1, filename_len_network, s1) \<Rightarrow>
          if r1 = - 1 then (None, s1)
          else let filename_length0 = ntohl (load_le filename_len_network);
                   filename_length = (if filename_length0 \<ge> 256 then 255 else filename_length0)
               in (case recvall s1 (unat filename_length) of
                     (r2, name_buf, s2) \<Rightarrow>
                       if r2 = - 1 then (None, s2) else (Some name_buf, s2)))"

text \<open>
  One iteration of the loop (lines 389-456), up to the received content; every result
  but \<open>Client_file\<close> leaves the loop.
\<close>

datatype client_frame =
    Client_lost
  | Client_end_of_transmission
  | Client_server_message string
  | Client_content_alloc_failed
  | Client_file string string

definition client_read_frame :: "bool \<Rightarrow> stream \<Rightarrow> client_frame \<times> stream" where
  "client_read_frame alloc_ok s =
     (case client_read_filename s of
        (None, s2) \<Rightarrow> (Client_lost, s2)
      | (Some buf, s2) \<Rightarrow>
          let name = cstr buf
          in if name = ''END_OF_TRANSMISSION'' then (Client_end_of_transmission, s2)
             else if strstr name ''NO_FILE_FOUND:'' \<noteq> None \<or>
                     name = ''NO_FILE_SELECTED'' \<or> name = ''NO_FILES_IN_FOLDER''
             then (case recvall s2 FILE_CONTENT_LENGTH_BYTES of
                     (r, dummy_content_len_net, s3) \<Rightarrow> (Client_server_message name, s3))
             else (case recvall s2 FILE_CONTENT_LENGTH_BYTES of
                     (r3, file_content_len_network, s3) \<Rightarrow>
                       if r3 = - 1 then (Client_lost, s3)
                       else let file_content_length = ntohll_custom (load_le file_content_len_network)
                            in if \<not> alloc_ok then (Client_content_alloc_failed, s3)
                               else (case recvall s3 (unat file_content_length) of
                                       (r4, file_content_data, s4) \<Rightarrow>
                                         if r4 = - 1 then (Client_lost, s4)
                                         else (Client_file name (cstr file_content_data), s4))))"

section \<open>Configuration frame (11-07-2025/c2.c lines 94-130)\<close>

text \<open>
  Lines 118-128, on the buffer \<open>config_data\<close> that holds the received payload and a
  terminating \<open>NUL\<close>: \<open>strstr\<close> and \<open>sscanf\<close> see the C string, which ends at the
  first \<open>NUL\<close> of the payload. The interval and the mode keep their defaults unless
  the string contains the key and \<open>sscanf\<close> converts what follows it. \<open>None\<close> is
  undefined behaviour: the number does not fit an \<open>int\<close>, or the word does not fit
  \<open>char mode[50]\<close>.
\<close>

definition c2_parse_interval :: "string \<Rightarrow> int option" where
  "c2_parse_interval config_data =
     (case strstr (cstr config_data) ''INTERVAL:'' of
        None \<Rightarrow> Some 20
      | Some interval_ptr \<Rightarrow>
          (case scan_d (drop (length ''INTERVAL:'') interval_ptr) of
             None \<Rightarrow> Some 20
           | Some v \<Rightarrow> if - (2 ^ 31) \<le> v \<and> v < 2 ^ 31 then Some v else None))"

definition c2_parse_mode :: "string \<Rightarrow> string option" where
  "c2_parse_mode config_data =
     (case strstr (cstr config_data) ''MODE:'' of
        None \<Rightarrow> Some ''interval''
      | Some mode_ptr \<Rightarrow>
          (case scan_s (drop (length ''MODE:'') mode_ptr) of
             None \<Rightarrow> Some ''interval''
           | Some w \<Rightarrow> if length w < 50 then Some w else None))"

text \<open>
  Lines 94-130 of \<open>main\<close>: the configuration frame is received and decoded. Every
  result but \<open>Config\<close> is an \<open>exit(EXIT_FAILURE)\<close>; a payload of length 0 is one of
  them, since \<open>recv_all\<close> of 0 bytes returns 0. \<open>alloc_ok\<close> says whether the \<open>malloc\<close>
  of the buffer succeeds.
\<close>

datatype c2_config =
    Config_lost_length
  | Config_alloc_failed
  | Config_lost_data
  | Config "int option" "string option"

definition c2_receive_config :: "bool \<Rightarrow> stream \<Rightarrow> c2_config \<times> stream" where
  "c2_receive_config alloc_ok s =
     (case recv_all s CONFIG_LENGTH_BYTES of
        (r1, net_config_len, s1) \<Rightarrow>
          if r1 \<le> 0 then (Config_lost_length, s1)
          else let config_len = unat (ntohl (load_le net_config_len))
               in if \<not> alloc_ok then (Config_alloc_failed, s1)
                  else (case recv_all s1 config_len of
                          (r2, config_data, s2) \<Rightarrow>
                            if r2 \<le> 0 then (Config_lost_data, s2)
                            else (Config (c2_parse_interval config_data)
                                         (c2_parse_mode config_data), s2)))"

text \<open>
  The keys of a configuration text as the specification describes it: one
  \<open>KEY:VALUE\<close> pair per line, the key being the text before the first colon.
\<close>

definition config_keys :: "string \<Rightarrow> string list" where
  "config_keys payload =
     map (takeWhile (\<lambda>c. c \<noteq> CHR '':''))
       (filter (\<lambda>line. CHR '':'' \<in> set line) (strtok_all (CHR 0x0A) [] payload))"


section \<open>Properties of the circular sample buffer\<close>

lemma c_rem_mod: "0 \<le> a \<Longrightarrow> 0 < b \<Longrightarrow> c_rem a b = a mod b"
  by (cases "a = 0") (simp_all add: c_rem_def minus_mult_div_eq_mod)

lemma cb_after_init: "cb_after c [] (init_circular_buffer junk (int c))"
  by (simp add: cb_after_def init_circular_buffer_def)

lemma mod_neq_near:
  fixes m n c :: nat
  assumes "m < n" "n < m + c"
  shows "m mod c \<noteq> n mod c"
proof
  assume "m mod c = n mod c"
  then have "(n - m) mod c = 0"
    using assms by (metis mod_eq_dvd_iff_nat less_imp_le_nat dvd_imp_mod_0)
  moreover have "0 < n - m" "n - m < c" using assms by auto
  ultimately show False by simp
qed

lemma cb_after_append:
  assumes "cb_after c vs cb" "0 < c"
  shows "cb_after c (vs @ [v]) (append_circular_buffer cb v)"
proof -
  let ?n = "length vs"
  from assms obtain d where d: "data cb = Some d" "length d = c"
    "\<forall>m < ?n. ?n \<le> m + c \<longrightarrow> d ! (m mod c) = vs ! m"
    and f: "max_size cb = int c" "tail cb = int (?n mod c)"
       "count cb = int (min ?n c)" "head cb = (if ?n < c then 0 else int (?n mod c))"
    unfolding cb_after_def by blast
  have suc: "int (?n mod c) + 1 = int (Suc (?n mod c))" by simp
  have "c_rem (int (?n mod c) + 1) (int c) = (int (?n mod c) + 1) mod int c"
    using assms(2) by (simp add: c_rem_mod)
  also have "\<dots> = int (Suc (?n mod c) mod c)"
    unfolding suc by (rule zmod_int [symmetric])
  also have "Suc (?n mod c) mod c = Suc ?n mod c"
    by (rule mod_Suc_eq)
  finally have t: "c_rem (int (?n mod c) + 1) (int c) = int (Suc ?n mod c)" .
  have cells: "\<forall>m < Suc ?n. Suc ?n \<le> m + c \<longrightarrow> (d[?n mod c := v]) ! (m mod c) = (vs @ [v]) ! m"
  proof (intro allI impI)
    fix m assume m: "m < Suc ?n" "Suc ?n \<le> m + c"
    show "(d[?n mod c := v]) ! (m mod c) = (vs @ [v]) ! m"
    proof (cases "m = ?n")
      case True
      then show ?thesis using d(2) assms(2) by simp
    next
      case False
      then have lt: "m < ?n" using m by simp
      then have "m mod c \<noteq> ?n mod c" using m by (intro mod_neq_near) auto
      then show ?thesis using d(3) lt m by (simp add: nth_append)
    qed
  qed
  show ?thesis
  proof (cases "?n < c")
    case True
    then show ?thesis
      using d(1,2) f cells t unfolding cb_after_def append_circular_buffer_def
      by (auto simp: Let_def min_def mod_Suc)
  next
    case False
    then show ?thesis
      using d(1,2) f cells t unfolding cb_after_def append_circular_buffer_def
      by (auto simp: Let_def min_def)
  qed
qed

lemma cb_after_foldl:
  assumes "0 < c"
  shows "cb_after c vs (foldl append_circular_buffer (init_circular_buffer junk (int c)) vs)"
proof (induction vs rule: rev_induct)
  case Nil
  show ?case by (simp add: cb_after_init)
next
  case (snoc v vs)
  then show ?case using assms by (simp add: cb_after_append)
qed


lemma snapshot_full:
  assumes "cb_after c vs cb" "0 < c" "c \<le> length vs"
  shows "get_circular_buffer_snapshot True cb = (Some (drop (length vs - c) vs), int c, cb)"
proof -
  let ?n = "length vs"
  let ?h = "?n mod c"
  from assms obtain d where d: "data cb = Some d" "length d = c"
    "\<forall>m < ?n. ?n \<le> m + c \<longrightarrow> d ! (m mod c) = vs ! m"
    and f: "max_size cb = int c" "tail cb = int ?h" "count cb = int c" "head cb = int ?h"
    unfolding cb_after_def by (auto simp: min_def)
  have h: "?h < c" using assms(2) by simp
  have "take (c - ?h) (drop ?h d) @ take ?h d = drop (?n - c) vs"
  proof (rule nth_equalityI)
    show "length (take (c - ?h) (drop ?h d) @ take ?h d) = length (drop (?n - c) vs)"
      using d(2) h assms(3) by simp
  next
    fix i assume "i < length (take (c - ?h) (drop ?h d) @ take ?h d)"
    then have i: "i < c" using d(2) h by simp
    let ?m = "?n - c + i"
    have m: "?m < ?n" "?n \<le> ?m + c" using i assms by auto
    have "?m mod c = (?m + c) mod c" by simp
    also have "?m + c = ?n + i" using assms(3) by simp
    also have "(?n + i) mod c = (?h + i) mod c" by (simp add: mod_add_left_eq)
    finally have mm: "?m mod c = (?h + i) mod c" .
    have cell: "d ! ((?h + i) mod c) = vs ! ?m" using d(3) m mm by metis
    show "(take (c - ?h) (drop ?h d) @ take ?h d) ! i = drop (?n - c) vs ! i"
    proof (cases "i < c - ?h")
      case True
      then have "(?h + i) mod c = ?h + i" by simp
      then show ?thesis using True cell d(2) assms(3) by (simp add: nth_append)
    next
      case False
      then have ge: "c \<le> ?h + i" by simp
      then have "(?h + i) mod c = (?h + i - c) mod c" by (rule le_mod_geq)
      also have "\<dots> = ?h + i - c"
      proof -
        have "?h + i - c < c" using i h by linarith
        then show ?thesis by (rule mod_less)
      qed
      also have "\<dots> = i - (c - ?h)" using ge h by simp
      finally have "(?h + i) mod c = i - (c - ?h)" .
      moreover have "i - (c - ?h) < ?h" using i h ge by simp
      ultimately show ?thesis using False cell d(2) assms(3) h by (simp add: nth_append)
    qed
  qed
  moreover have "nat (int c - int ?h) = c - ?h" by simp
  ultimately show ?thesis
    using d(1) f assms(2) by (simp add: get_circular_buffer_snapshot_def)
qed

lemma snapshot_partial:
  assumes "cb_after c vs cb" "length vs < c" "vs \<noteq> []"
  shows "get_circular_buffer_snapshot True cb = (Some vs, int (length vs), cb)"
proof -
  let ?n = "length vs"
  from assms obtain d where d: "data cb = Some d" "length d = c"
    "\<forall>m < ?n. ?n \<le> m + c \<longrightarrow> d ! (m mod c) = vs ! m"
    and f: "max_size cb = int c" "tail cb = int ?n" "count cb = int ?n" "head cb = 0"
    unfolding cb_after_def by (auto simp: min_def)
  have "take ?n d = vs"
  proof (rule nth_equalityI)
    show "length (take ?n d) = ?n" using d(2) assms(2) by simp
  next
    fix i assume "i < length (take ?n d)"
    then have i: "i < ?n" by simp
    then have "d ! (i mod c) = vs ! i" using d(3) assms(2) by simp
    then show "take ?n d ! i = vs ! i" using i assms(2) by simp
  qed
  then show ?thesis
    using d(1) f assms(3) by (simp add: get_circular_buffer_snapshot_def)
qed

lemma snapshot_keeps_buffer: "snd (snd (get_circular_buffer_snapshot ok cb)) = cb"
  by (simp add: get_circular_buffer_snapshot_def Let_def split: option.splits)

lemma cb_inv_init: "0 < n \<Longrightarrow> cb_inv (init_circular_buffer junk n)"
  by (simp add: cb_inv_def init_circular_buffer_def)

lemma cb_inv_append:
  assumes "cb_inv cb"
  shows "cb_inv (append_circular_buffer cb v)"
proof (cases "data cb")
  case None
  then show ?thesis using assms by (simp add: append_circular_buffer_def)
next
  case (Some d)
  let ?C = "max_size cb"
  from assms have b: "0 < ?C" "0 \<le> count cb" "count cb \<le> ?C" "0 \<le> head cb" "head cb < ?C"
    and t: "tail cb = (head cb + count cb) mod ?C"
    unfolding cb_inv_def by auto
  have t0: "0 \<le> tail cb" "tail cb < ?C" using b t by simp_all
  have tr: "c_rem (tail cb + 1) ?C = (tail cb + 1) mod ?C" using t0 b by (simp add: c_rem_mod)
  have hr: "c_rem (head cb + 1) ?C = (head cb + 1) mod ?C" using b by (simp add: c_rem_mod)
  show ?thesis
  proof (cases "count cb < ?C")
    case True
    have "(tail cb + 1) mod ?C = (head cb + (count cb + 1)) mod ?C"
      unfolding t by (simp add: mod_add_left_eq add.assoc)
    then show ?thesis
      using Some True b tr by (simp add: append_circular_buffer_def cb_inv_def Let_def)
  next
    case False
    then have full: "count cb = ?C" using b by simp
    then have "tail cb = head cb" using t b by simp
    then have "(tail cb + 1) mod ?C = ((head cb + 1) mod ?C + count cb) mod ?C"
      using full by (simp add: mod_add_left_eq)
    then show ?thesis
      using Some False b tr hr by (simp add: append_circular_buffer_def cb_inv_def Let_def)
  qed
qed

lemma cb_inv_ops:
  assumes "cb_inv cb" "\<forall>n. Init n \<in> set ops \<longrightarrow> 0 < n"
  shows "cb_inv (foldl (apply_cb_op junk) cb ops)"
  using assms
proof (induction ops arbitrary: cb)
  case Nil
  then show ?case by simp
next
  case (Cons x ops)
  have "cb_inv (apply_cb_op junk cb x)"
    using Cons.prems by (cases x) (simp_all add: cb_inv_init cb_inv_append)
  then show ?case using Cons by simp
qed

text \<open>
  Claim C4. A buffer of capacity \<open>C\<close> that has received \<open>C + k\<close> values, \<open>k > 0\<close>,
  has count \<open>C\<close>, and its ordered snapshot is the last \<open>C\<close> values in the order they
  were appended, oldest first. The snapshot hands back the buffer as it was, whether or
  not the copy could be allocated.
\<close>

theorem circular_buffer_keeps_last:
  assumes "0 < C" and "length vs = nat C + k" and "0 < k"
  shows "let cb = foldl append_circular_buffer (init_circular_buffer junk C) vs
         in count cb = C \<and>
            get_circular_buffer_snapshot True cb = (Some (drop k vs), C, cb) \<and>
            length (drop k vs) = nat C \<and>
            snd (snd (get_circular_buffer_snapshot False cb)) = cb"
proof -
  define c where "c = nat C"
  then have C: "C = int c" "0 < c" using assms(1) by simp_all
  let ?cb = "foldl append_circular_buffer (init_circular_buffer junk C) vs"
  have after: "cb_after c vs ?cb" unfolding C(1) using C(2) by (rule cb_after_foldl)
  have len: "c \<le> length vs" "length vs - c = k" using assms(2) c_def by simp_all
  have "count ?cb = C" using after len C unfolding cb_after_def by simp
  moreover have "get_circular_buffer_snapshot True ?cb = (Some (drop k vs), C, ?cb)"
    using snapshot_full [OF after C(2) len(1)] len(2) C(1) by simp
  moreover have "length (drop k vs) = nat C" using assms(2) by simp
  ultimately show ?thesis by (simp add: snapshot_keeps_buffer Let_def)
qed

theorem circular_buffer_keeps_last_witness:
  "let cb = foldl append_circular_buffer (init_circular_buffer (0::int) 3) [1, 2, 3, 4, 5]
   in count cb = 3 \<and> get_circular_buffer_snapshot True cb = (Some [3, 4, 5], 3, cb)"
  using circular_buffer_keeps_last [of 3 "[1, 2, 3, 4, 5::int]" 2 0] by (simp add: Let_def)

text \<open>
  Claim C10. After every operation of a trace of initialisations (with positive
  capacities) and appends, \<open>0 \<le> count \<le> max_size\<close> and
  \<open>tail = (head + count) mod max_size\<close>; the snapshot leaves \<open>head\<close>, \<open>tail\<close> and
  \<open>count\<close> as they were. The prefix \<open>take k ops\<close> ranges over every point of the trace.
\<close>

theorem circular_buffer_invariant:
  assumes "0 < C" and "\<forall>n. Init n \<in> set ops \<longrightarrow> 0 < n"
  shows "let cb = foldl (apply_cb_op junk) (init_circular_buffer junk C) (take k ops);
             cb' = snd (snd (get_circular_buffer_snapshot ok cb))
         in 0 \<le> count cb \<and> count cb \<le> max_size cb \<and>
            tail cb = (head cb + count cb) mod max_size cb \<and>
            head cb' = head cb \<and> tail cb' = tail cb \<and> count cb' = count cb"
proof -
  have "\<forall>n. Init n \<in> set (take k ops) \<longrightarrow> 0 < n"
    using assms(2) by (meson in_set_takeD)
  then have "cb_inv (foldl (apply_cb_op junk) (init_circular_buffer junk C) (take k ops))"
    using assms(1) by (intro cb_inv_ops cb_inv_init)
  then show ?thesis by (simp add: cb_inv_def snapshot_keeps_buffer Let_def)
qed

theorem circular_buffer_invariant_witness:
  "let cb = foldl (apply_cb_op (0::int)) (init_circular_buffer 0 2)
              (take 5 [Append 7, Append 8, Append 9, Init 3, Append 1]);
       cb' = snd (snd (get_circular_buffer_snapshot True cb))
   in 0 \<le> count cb \<and> count cb \<le> max_size cb \<and>
      tail cb = (head cb + count cb) mod max_size cb \<and>
      head cb' = head cb \<and> tail cb' = tail cb \<and> count cb' = count cb"
  using circular_buffer_invariant [of 2 "[Append 7, Append 8, Append 9, Init 3, Append 1]" "0::int" 5 True]
  by simp

section \<open>Properties of the queue\<close>

text \<open>
  Claim C5. On a queue that holds its ten batches, storing another batch fails and
  returns the queue as it was: the same ten batches in the same order. The operation is
  a total function without a loop, so it returns.
\<close>

theorem full_queue_drops_batch:
  assumes "queue_count q = 10"
  shows "queue_put alloc_ok q raw_values raw_adc_count interval name = (False, q) \<and>
         queue_items (snd (queue_put alloc_ok q raw_values raw_adc_count interval name)) = queue_items q \<and>
         length (queue_items q) = 10"
  using assms by (simp add: queue_put_def queue_items_def split: option.splits)

theorem full_queue_drops_batch_witness:
  "queue_count full_queue = 10 \<and>
   queue_put True full_queue (Some [Fin 1, Fin 2]) 2 20 ''f11.txt'' = (False, full_queue) \<and>
   length (queue_items full_queue) = 10"
proof -
  have h: "queue_count full_queue = 10" by (simp add: full_queue_def)
  show ?thesis
    using h full_queue_drops_batch [OF h, of True "Some [Fin 1, Fin 2]" 2 20 "''f11.txt''"] by simp
qed

section \<open>Properties of the calibration\<close>

text \<open>
  Claim C7, as amended. With a non-zero \<open>SCALE_CAL\<close> both clients derive the weight
  \<open>(raw / 2^31 - ZERO_CAL) / SCALE_CAL\<close>. With \<open>SCALE_CAL = 0\<close> neither divides:
  \<open>normalize_to_weights\<close> of client.c yields \<open>NaN\<close>, \<open>normalize_to_weight\<close> of c2.c
  yields \<open>0.0\<close>.
\<close>

theorem normalize_weight_formula:
  "normalize_to_weights zero_cal scale_cal True [v] =
     Some [if scale_cal \<noteq> 0 then Fin ((real_of_int v / 2 ^ 31 - zero_cal) / scale_cal) else NaN] \<and>
   normalize_to_weight zero_cal scale_cal v =
     (if scale_cal \<noteq> 0 then Fin ((real_of_int v / 2 ^ 31 - zero_cal) / scale_cal) else Fin 0)"
  by (simp add: normalize_to_weights_def normalize_to_weight_def ADC_MAX_VAL_def d_of_int_def)

theorem normalize_weight_formula_witness:
  "normalize_to_weights client_ZERO_CAL 0 True [1000] = Some [NaN] \<and>
   normalize_to_weight c2_ZERO_CAL 0 1000 = Fin 0 \<and>
   normalize_to_weights client_ZERO_CAL client_SCALE_CAL True [0] =
     Some [Fin (- client_ZERO_CAL / client_SCALE_CAL)]"
  using normalize_weight_formula [of client_ZERO_CAL 0 1000]
    normalize_weight_formula [of c2_ZERO_CAL 0 1000]
    normalize_weight_formula [of client_ZERO_CAL client_SCALE_CAL 0]
  by (simp add: client_SCALE_CAL_def)

text \<open>
  With \<open>SCALE_CAL = 0\<close>, \<open>normalize_to_weight\<close> of c2.c returns the number \<open>0.0\<close> for
  the raw value 1000, not \<open>NaN\<close>.
\<close>

theorem c2_zero_scale_counterexample:
  "normalize_to_weight c2_ZERO_CAL 0 1000 = Fin 0 \<and> \<not> isnan (normalize_to_weight c2_ZERO_CAL 0 1000)"
  by (simp add: normalize_to_weight_def)

section \<open>Properties of the processing step\<close>

lemma dsp_stage_cold:
  assumes "count dsp < max FIR_NUM_TAPS FFT_WINDOW_SIZE"
  shows "dsp_stage env dsp fs w = Some (w, fs)"
  using assms by (simp add: dsp_stage_def FIR_NUM_TAPS_def FFT_WINDOW_SIZE_def)

lemma process_sample_cold:
  assumes "raw_save_ok env"
    and "dsp' = append_circular_buffer (dsp_raw_adc_buffer p) (current_raw_adc p)"
    and "count dsp' < max FIR_NUM_TAPS FFT_WINDOW_SIZE"
  shows "\<exists>p'. tick_pipeline (process_sample z s env p) = Some p' \<and>
           dsp_raw_adc_buffer p' = dsp' \<and>
           current_filtered_buffer p' =
             append_circular_buffer (current_filtered_buffer p)
               (if count dsp' < FIR_NUM_TAPS then NaN else current_raw_weight z s env p)"
  using assms(1,3) unfolding assms(2)
  by (simp add: process_sample_def Let_def dsp_stage_cold)

lemma count_foldl_append:
  assumes "0 < C"
  shows "count (foldl append_circular_buffer (init_circular_buffer junk C) vs) = min (int (length vs)) C"
proof -
  have "cb_after (nat C) vs (foldl append_circular_buffer (init_circular_buffer junk (int (nat C))) vs)"
    using assms by (intro cb_after_foldl) simp
  then show ?thesis using assms by (auto simp: cb_after_def min_def)
qed

lemma snapshot_foldl_partial:
  assumes "int (length vs) < C" "vs \<noteq> []"
  shows "fst (get_circular_buffer_snapshot True
                (foldl append_circular_buffer (init_circular_buffer junk C) vs)) = Some vs"
proof -
  have "cb_after (nat C) vs (foldl append_circular_buffer (init_circular_buffer junk (int (nat C))) vs)"
    using assms by (intro cb_after_foldl) simp
  moreover have "int (nat C) = C" "length vs < nat C" using assms by simp_all
  ultimately show ?thesis using snapshot_partial [of "nat C" vs _] assms(2) by simp
qed

text \<open>
  Claim C6, as amended. In a processing step that leaves fewer than
  \<open>max (FIR_NUM_TAPS, FFT_WINDOW_SIZE)\<close> samples in the DSP window, the value appended to
  the filtered-plot buffer is \<open>NaN\<close> while the window holds fewer than \<open>FIR_NUM_TAPS\<close>
  samples, and the raw weight of the sample from \<open>FIR_NUM_TAPS\<close> samples on. (The step
  is abandoned before the append when the \<open>realloc\<close> of the raw weights fails.)
\<close>

theorem filtered_plot_warm_up:
  assumes "is_processing_file (g_file_state p)"
    and "current_file_index (g_file_state p) < current_file_num_samples (g_file_state p)"
    and "raw_save_ok env"
    and "count (append_circular_buffer (dsp_raw_adc_buffer p) (current_raw_adc p))
           < max FIR_NUM_TAPS FFT_WINDOW_SIZE"
  shows "map_option current_filtered_buffer
           (tick_pipeline (process_data_gui_callback zero_cal scale_cal env p)) =
         Some (append_circular_buffer (current_filtered_buffer p)
                 (if count (append_circular_buffer (dsp_raw_adc_buffer p) (current_raw_adc p))
                       < FIR_NUM_TAPS
                  then NaN else current_raw_weight zero_cal scale_cal env p))"
proof -
  have "process_data_gui_callback zero_cal scale_cal env p = process_sample zero_cal scale_cal env p"
    using assms(1,2) by (simp add: process_data_gui_callback_def)
  then show ?thesis
    using process_sample_cold [OF assms(3) refl assms(4), of zero_cal scale_cal] by auto
qed

lemma pipeline_after_50_sample: "current_raw_adc pipeline_after_50 = Fin 1000"
  by (simp add: current_raw_adc_def pipeline_after_50_def)

lemma pipeline_after_50_weight:
  "current_raw_weight client_ZERO_CAL client_SCALE_CAL all_ok pipeline_after_50 = Fin weight_1000"
  unfolding current_raw_weight_def pipeline_after_50_sample
  by (simp add: normalize_to_weights_def all_ok_def weight_1000_def client_SCALE_CAL_def
      ADC_MAX_VAL_def d_of_int_def)

lemma pipeline_after_50_dsp:
  "append_circular_buffer (dsp_raw_adc_buffer pipeline_after_50) (current_raw_adc pipeline_after_50) =
   foldl append_circular_buffer (init_circular_buffer (Fin 0) DSP_BUFFER_SIZE)
     (replicate 50 (Fin 1000) @ [Fin 1000])"
  unfolding pipeline_after_50_sample by (simp add: pipeline_after_50_def)

lemma pipeline_after_50_count:
  "count (append_circular_buffer (dsp_raw_adc_buffer pipeline_after_50)
            (current_raw_adc pipeline_after_50)) = 51"
  unfolding pipeline_after_50_dsp
  by (subst count_foldl_append) (simp_all add: DSP_BUFFER_SIZE_def)

lemma start_file_sample: "current_raw_adc (start_file [Fin 1000, Fin 1002] 20 ''f1.txt'') = Fin 1000"
  by (simp add: current_raw_adc_def start_file_def)

lemma start_file_count:
  "count (append_circular_buffer (dsp_raw_adc_buffer (start_file [Fin 1000, Fin 1002] 20 ''f1.txt''))
            (current_raw_adc (start_file [Fin 1000, Fin 1002] 20 ''f1.txt''))) = 1"
proof -
  have "append_circular_buffer (dsp_raw_adc_buffer (start_file [Fin 1000, Fin 1002] 20 ''f1.txt''))
            (current_raw_adc (start_file [Fin 1000, Fin 1002] 20 ''f1.txt'')) =
        foldl append_circular_buffer (init_circular_buffer (Fin 0) DSP_BUFFER_SIZE) [Fin 1000]"
    unfolding start_file_sample by (simp add: start_file_def)
  then show ?thesis
    by (simp only: ) (subst count_foldl_append, simp_all add: DSP_BUFFER_SIZE_def)
qed

theorem filtered_plot_warm_up_witness:
  "is_processing_file (g_file_state pipeline_after_50) \<and>
   current_file_index (g_file_state pipeline_after_50)
     < current_file_num_samples (g_file_state pipeline_after_50) \<and>
   raw_save_ok all_ok \<and>
   count (append_circular_buffer (dsp_raw_adc_buffer pipeline_after_50)
            (current_raw_adc pipeline_after_50)) < max FIR_NUM_TAPS FFT_WINDOW_SIZE \<and>
   map_option current_filtered_buffer
     (tick_pipeline (process_data_gui_callback client_ZERO_CAL client_SCALE_CAL all_ok pipeline_after_50)) =
   Some (append_circular_buffer (current_filtered_buffer pipeline_after_50) (Fin weight_1000)) \<and>
   map_option current_filtered_buffer
     (tick_pipeline (process_data_gui_callback client_ZERO_CAL client_SCALE_CAL all_ok
        (start_file [Fin 1000, Fin 1002] 20 ''f1.txt''))) =
   Some (append_circular_buffer
           (current_filtered_buffer (start_file [Fin 1000, Fin 1002] 20 ''f1.txt'')) NaN)"
proof -
  let ?p0 = "start_file [Fin 1000, Fin 1002] 20 ''f1.txt''"
  have h1: "is_processing_file (g_file_state pipeline_after_50)"
    by (simp add: pipeline_after_50_def)
  have h2: "current_file_index (g_file_state pipeline_after_50)
              < current_file_num_samples (g_file_state pipeline_after_50)"
    by (simp add: pipeline_after_50_def)
  have h3: "raw_save_ok all_ok" by (simp add: all_ok_def)
  have h4: "count (append_circular_buffer (dsp_raw_adc_buffer pipeline_after_50)
              (current_raw_adc pipeline_after_50)) < max FIR_NUM_TAPS FFT_WINDOW_SIZE"
    unfolding pipeline_after_50_count by (simp add: FIR_NUM_TAPS_def FFT_WINDOW_SIZE_def)
  have g1: "is_processing_file (g_file_state ?p0)" by (simp add: start_file_def)
  have g2: "current_file_index (g_file_state ?p0) < current_file_num_samples (g_file_state ?p0)"
    by (simp add: start_file_def)
  have g4: "count (append_circular_buffer (dsp_raw_adc_buffer ?p0) (current_raw_adc ?p0))
              < max FIR_NUM_TAPS FFT_WINDOW_SIZE"
    unfolding start_file_count by (simp add: FIR_NUM_TAPS_def FFT_WINDOW_SIZE_def)
  have c1: "map_option current_filtered_buffer
     (tick_pipeline (process_data_gui_callback client_ZERO_CAL client_SCALE_CAL all_ok pipeline_after_50)) =
      Some (append_circular_buffer (current_filtered_buffer pipeline_after_50) (Fin weight_1000))"
    using filtered_plot_warm_up [OF h1 h2 h3 h4, of client_ZERO_CAL client_SCALE_CAL]
    unfolding pipeline_after_50_count pipeline_after_50_weight
    by (simp add: FIR_NUM_TAPS_def)
  have c2: "map_option current_filtered_buffer
     (tick_pipeline (process_data_gui_callback client_ZERO_CAL client_SCALE_CAL all_ok ?p0)) =
      Some (append_circular_buffer (current_filtered_buffer ?p0) NaN)"
    using filtered_plot_warm_up [OF g1 g2 h3 g4, of client_ZERO_CAL client_SCALE_CAL]
    unfolding start_file_count
    by (simp add: FIR_NUM_TAPS_def)
  show ?thesis by (intro conjI h1 h2 h3 h4 c1 c2)
qed

text \<open>
  The 51st sample of a file leaves 51 samples in the DSP window, fewer than
  \<open>max (FIR_NUM_TAPS, FFT_WINDOW_SIZE) = 256\<close>, and the value the step appends to the
  filtered-plot buffer behind its 50 \<open>NaN\<close> is the raw weight of the sample, a number.
\<close>

theorem warm_up_counterexample:
  "dsp_window_count (process_data_gui_callback client_ZERO_CAL client_SCALE_CAL all_ok pipeline_after_50)
     = Some 51 \<and>
   51 < max FIR_NUM_TAPS FFT_WINDOW_SIZE \<and>
   filtered_plot (process_data_gui_callback client_ZERO_CAL client_SCALE_CAL all_ok pipeline_after_50) =
     Some (replicate 50 NaN @ [Fin weight_1000])"
proof -
  let ?p = pipeline_after_50
  let ?dsp' = "append_circular_buffer (dsp_raw_adc_buffer ?p) (current_raw_adc ?p)"
  have cold: "count ?dsp' < max FIR_NUM_TAPS FFT_WINDOW_SIZE"
    unfolding pipeline_after_50_count by (simp add: FIR_NUM_TAPS_def FFT_WINDOW_SIZE_def)
  have ok: "raw_save_ok all_ok" by (simp add: all_ok_def)
  from process_sample_cold [OF ok refl cold]
  obtain p' where p': "tick_pipeline (process_sample client_ZERO_CAL client_SCALE_CAL all_ok ?p) = Some p'"
    "dsp_raw_adc_buffer p' = ?dsp'"
    "current_filtered_buffer p' = append_circular_buffer (current_filtered_buffer ?p)
       (if count ?dsp' < FIR_NUM_TAPS then NaN
        else current_raw_weight client_ZERO_CAL client_SCALE_CAL all_ok ?p)"
    by blast
  have cb: "process_data_gui_callback client_ZERO_CAL client_SCALE_CAL all_ok ?p =
          process_sample client_ZERO_CAL client_SCALE_CAL all_ok ?p"
    by (simp add: process_data_gui_callback_def pipeline_after_50_def)
  have "current_filtered_buffer p' =
          foldl append_circular_buffer (init_circular_buffer (Fin 0) PLOT_BUFFER_SIZE)
            (replicate 50 NaN @ [Fin weight_1000])"
    unfolding p'(3) pipeline_after_50_count pipeline_after_50_weight
    by (simp add: FIR_NUM_TAPS_def pipeline_after_50_def)
  then have "fst (get_circular_buffer_snapshot True (current_filtered_buffer p')) =
               Some (replicate 50 NaN @ [Fin weight_1000])"
    by (simp only: ) (rule snapshot_foldl_partial, simp_all add: PLOT_BUFFER_SIZE_def)
  then show ?thesis
    unfolding cb using p'(1,2) pipeline_after_50_count
    by (simp add: dsp_window_count_def filtered_plot_def FIR_NUM_TAPS_def FFT_WINDOW_SIZE_def)
qed


section \<open>Properties of the byte-order conversions\<close>

lemma bit_nat_of_char: "bit (of_char c :: nat) k \<Longrightarrow> k < 8"
proof -
  assume b: "bit (of_char c :: nat) k"
  have "(of_char c :: nat) < 2 ^ 8" by simp
  then have "take_bit 8 (of_char c :: nat) = of_char c" by (simp add: take_bit_nat_eq_self_iff)
  then have "bit (take_bit 8 (of_char c :: nat)) k" using b by simp
  then show ?thesis by (simp add: bit_take_bit_iff)
qed

lemma bit_word_of_char:
  "bit (of_char c :: 'a::len word) k \<longleftrightarrow> k < LENGTH('a) \<and> bit (of_char c :: nat) k"
proof -
  have "(of_char c :: 'a word) = word_of_nat (of_char c)" by (simp only: of_nat_of_char)
  then show ?thesis by (simp only: bit_of_nat_iff possible_bit_word)
qed


lemma bit_load_le:
  "bit (load_le cs :: 'a::len word) n \<longleftrightarrow>
     n < LENGTH('a) \<and> n div 8 < length cs \<and> bit (of_char (cs ! (n div 8)) :: nat) (n mod 8)"
proof (induction cs arbitrary: n)
  case Nil
  show ?case by (simp add: load_le_def)
next
  case (Cons c cs)
  have unfold: "(load_le (c # cs) :: 'a word) = of_char c OR push_bit 8 (load_le cs)"
    by (simp add: load_le_def)
  have split: "bit (load_le (c # cs) :: 'a word) n \<longleftrightarrow>
      (n < LENGTH('a) \<and> bit (of_char c :: nat) n) \<or>
      (8 \<le> n \<and> n < LENGTH('a) \<and> bit (load_le cs :: 'a word) (n - 8))"
    unfolding unfold bit_or_iff bit_push_bit_iff bit_word_of_char possible_bit_word by blast
  show ?case
  proof (cases "n < 8")
    case True
    then have "n div 8 = 0" "n mod 8 = n" by simp_all
    then show ?thesis unfolding split using True by simp
  next
    case False
    then have n: "8 \<le> n" by simp
    define m where "m = n - 8"
    have nm: "n = m + 8" using n by (simp add: m_def)
    have d1: "(n - 8) div 8 = n div 8 - 1" unfolding nm by simp
    have d2: "(n - 8) mod 8 = n mod 8" unfolding nm by simp
    have d3: "1 \<le> n div 8" unfolding nm by simp
    have nth: "(c # cs) ! (n div 8) = cs ! (n div 8 - 1)" using d3 by (cases "n div 8") auto
    have len: "n div 8 < length (c # cs) \<longleftrightarrow> n div 8 - 1 < length cs" using d3 by auto
    have nb: "\<not> bit (of_char c :: nat) n" using False bit_nat_of_char by blast
    have "bit (load_le (c # cs) :: 'a word) n \<longleftrightarrow> n < LENGTH('a) \<and> bit (load_le cs :: 'a word) (n - 8)"
      unfolding split using n nb by blast
    also have "\<dots> \<longleftrightarrow> n < LENGTH('a) \<and> n div 8 - 1 < length cs \<and>
         bit (of_char (cs ! (n div 8 - 1)) :: nat) (n mod 8)"
      unfolding Cons.IH d1 d2 by auto
    finally show ?thesis unfolding nth len .
  qed
qed

lemma bit_byte_at:
  "bit (of_char (byte_at w i) :: nat) k \<longleftrightarrow> k < 8 \<and> bit w (8 * i + k)"
proof -
  let ?x = "drop_bit (8 * i) w AND 0xFF"
  have m: "(0xFF :: 'a word) = mask 8" by (simp add: mask_eq_exp_minus_1)
  have "(of_char (byte_at w i) :: nat) = take_bit 8 (unat ?x)"
    unfolding byte_at_def by (simp add: take_bit_eq_mod)
  then have "bit (of_char (byte_at w i) :: nat) k \<longleftrightarrow> k < 8 \<and> bit ?x k"
    by (simp add: bit_take_bit_iff bit_unsigned_iff)
  also have "\<dots> \<longleftrightarrow> k < 8 \<and> bit w (8 * i + k)"
    unfolding m by (auto simp: bit_simps dest: bit_imp_le_length)
  finally show ?thesis .
qed

lemma length_mem_le [simp]: "length (mem_le n w) = n"
  by (simp add: mem_le_def)

lemma nth_mem_le: "i < n \<Longrightarrow> mem_le n w ! i = byte_at w i"
  by (simp add: mem_le_def)

lemma load_le_mem_le:
  fixes w :: "'a::len word"
  assumes "LENGTH('a) \<le> 8 * n"
  shows "load_le (mem_le n w) = w"
proof (rule bit_word_eqI)
  fix k assume k: "k < LENGTH('a)"
  then have d: "k div 8 < n" using assms by (simp add: less_mult_imp_div_less mult.commute)
  have "8 * (k div 8) + k mod 8 = k" by simp
  then show "bit (load_le (mem_le n w) :: 'a word) k \<longleftrightarrow> bit w k"
    unfolding bit_load_le using k d by (simp add: nth_mem_le bit_byte_at)
qed

lemma mem_le_load_le:
  assumes "length cs = n" "8 * n \<le> LENGTH('a::len)"
  shows "mem_le n (load_le cs :: 'a word) = cs"
proof (rule nth_equalityI)
  show "length (mem_le n (load_le cs :: 'a word)) = length cs" using assms by simp
next
  fix i assume "i < length (mem_le n (load_le cs :: 'a word))"
  then have i: "i < n" by simp
  have "(of_char (byte_at (load_le cs :: 'a word) i) :: nat) = of_char (cs ! i)"
  proof (rule bit_eqI)
    fix k
    show "bit (of_char (byte_at (load_le cs :: 'a word) i) :: nat) k \<longleftrightarrow> bit (of_char (cs ! i) :: nat) k"
    proof (cases "k < 8")
      case False
      then show ?thesis using bit_nat_of_char by blast
    next
      case True
      then have "(8 * i + k) div 8 = i" "(8 * i + k) mod 8 = k" by simp_all
      moreover have "8 * i + k < LENGTH('a)" using True i assms(2) by simp
      ultimately show ?thesis
        unfolding bit_byte_at bit_load_le using True i assms(1) by simp
    qed
  qed
  then have "byte_at (load_le cs :: 'a word) i = cs ! i" by simp
  then show "mem_le n (load_le cs :: 'a word) ! i = cs ! i" using i by (simp add: nth_mem_le)
qed

lemma mem_le_htonl: "mem_le 4 (htonl x) = rev (mem_le 4 x)"
  unfolding htonl_def by (rule mem_le_load_le) simp_all

lemma ntohl_htonl_eq: "ntohl = htonl"
  by (rule ext) (simp add: ntohl_def htonl_def)

lemma htonl_htonl: "htonl (htonl x) = x"
proof -
  have "htonl (htonl x) = load_le (rev (mem_le 4 (htonl x)))" by (simp add: htonl_def)
  also have "\<dots> = load_le (mem_le 4 x)" by (simp add: mem_le_htonl)
  also have "\<dots> = x" by (rule load_le_mem_le) simp
  finally show ?thesis .
qed

lemma bit_htonl: "bit (htonl x) n \<longleftrightarrow> n < 32 \<and> bit x (8 * (3 - n div 8) + n mod 8)"
proof (cases "n < 32")
  case False
  then show ?thesis using bit_imp_le_length [of "htonl x" n] by auto
next
  case True
  then have d: "n div 8 < 4" by simp
  then have "rev (mem_le 4 x) ! (n div 8) = byte_at x (3 - n div 8)"
    by (simp add: rev_nth nth_mem_le)
  then show ?thesis
    unfolding htonl_def bit_load_le using True d by (simp add: bit_byte_at)
qed

text \<open>The reversal of the eight bytes of a 64-bit integer.\<close>

lemma bit_swap64:
  "bit (load_le (rev (mem_le 8 v)) :: 64 word) n \<longleftrightarrow> n < 64 \<and> bit v (8 * (7 - n div 8) + n mod 8)"
proof (cases "n < 64")
  case False
  then show ?thesis using bit_imp_le_length [of "load_le (rev (mem_le 8 v)) :: 64 word" n] by auto
next
  case True
  then have d: "n div 8 < 8" by simp
  then have "rev (mem_le 8 v) ! (n div 8) = byte_at v (7 - n div 8)"
    by (simp add: rev_nth nth_mem_le)
  then show ?thesis
    unfolding bit_load_le using True d by (simp add: bit_byte_at)
qed

lemma htobe64_custom_swap: "htobe64_custom v = load_le (rev (mem_le 8 v))"
proof (rule bit_word_eqI)
  fix n assume n: "n < LENGTH(64)"
  then have n64: "n < 64" by simp
  have m: "(0xFFFFFFFF :: 64 word) = mask 32" by (simp add: mask_eq_exp_minus_1)
  show "bit (htobe64_custom v) n \<longleftrightarrow> bit (load_le (rev (mem_le 8 v)) :: 64 word) n"
  proof (cases "n < 32")
    case True
    then have i: "8 * (3 - n div 8) + n mod 8 < 32" by simp
    have e: "32 + (8 * (3 - n div 8) + n mod 8) = 8 * (7 - n div 8) + n mod 8" using True by simp
    have "bit (htobe64_custom v) n \<longleftrightarrow> bit v (32 + (8 * (3 - n div 8) + n mod 8))"
      unfolding htobe64_custom_def m using True i
      by (simp add: bit_or_iff bit_push_bit_iff bit_ucast_iff bit_htonl bit_drop_bit_eq)
    then have "bit (htobe64_custom v) n \<longleftrightarrow> bit v (8 * (7 - n div 8) + n mod 8)"
      by (simp only: e)
    then show ?thesis unfolding bit_swap64 using n64 by simp
  next
    case False
    define k where "k = n - 32"
    have nk: "n = k + 32" "k < 32" using False n64 by (simp_all add: k_def)
    have i: "8 * (3 - k div 8) + k mod 8 < 32" using nk by simp
    have "(k + 32) div 8 = k div 8 + 4" using div_mult_self2 [of 8 k 4] by simp
    moreover have "(k + 32) mod 8 = k mod 8" using mod_mult_self2 [of k 8 4] by simp
    ultimately have dk: "n div 8 = k div 8 + 4" "n mod 8 = k mod 8" unfolding nk(1) by simp_all
    have e: "8 * (3 - k div 8) + k mod 8 = 8 * (7 - n div 8) + n mod 8" unfolding dk by simp
    have "bit (htobe64_custom v) n \<longleftrightarrow> bit v (8 * (3 - k div 8) + k mod 8)"
      unfolding htobe64_custom_def m using nk i
      by (simp add: bit_or_iff bit_push_bit_iff bit_ucast_iff bit_htonl bit_and_iff bit_mask_iff)
    then have "bit (htobe64_custom v) n \<longleftrightarrow> bit v (8 * (7 - n div 8) + n mod 8)"
      by (simp only: e)
    then show ?thesis unfolding bit_swap64 using n64 by simp
  qed
qed

lemma be64toh_custom_eq: "be64toh_custom = htobe64_custom"
  by (rule ext) (simp add: be64toh_custom_def htobe64_custom_def ntohl_htonl_eq)

lemma ntohll_custom_eq: "ntohll_custom = htobe64_custom"
  by (rule ext) (simp add: ntohll_custom_def htobe64_custom_def ntohl_htonl_eq)

lemma mem_le_htobe64: "mem_le 8 (htobe64_custom v) = rev (mem_le 8 v)"
  unfolding htobe64_custom_swap by (rule mem_le_load_le) simp_all

lemma htobe64_htobe64: "htobe64_custom (htobe64_custom v) = v"
proof -
  have "htobe64_custom (htobe64_custom v) = load_le (rev (mem_le 8 (htobe64_custom v)))"
    by (simp add: htobe64_custom_swap)
  also have "\<dots> = load_le (mem_le 8 v)" by (simp add: mem_le_htobe64)
  also have "\<dots> = v" by (rule load_le_mem_le) simp
  finally show ?thesis .
qed

lemma ntohl_load_wire: "ntohl (load_le (mem_le 4 (htonl x))) = x"
proof -
  have "load_le (mem_le 4 (htonl x)) = htonl x" by (rule load_le_mem_le) simp
  then show ?thesis by (simp add: ntohl_htonl_eq htonl_htonl)
qed

lemma be64toh_load_wire: "be64toh_custom (load_le (mem_le 8 (htobe64_custom v))) = v"
proof -
  have "load_le (mem_le 8 (htobe64_custom v)) = htobe64_custom v" by (rule load_le_mem_le) simp
  then show ?thesis by (simp add: be64toh_custom_eq htobe64_htobe64)
qed

section \<open>Properties of the exact-length readers\<close>

lemma recv_empty:
  assumes "avail s = []"
  shows "fst (recv s n) \<le> 0"
  using assms
proof (induction s)
  case Nil
  then show ?case by simp
next
  case (Cons e s)
  then show ?case by (cases e) (auto simp: Let_def)
qed

lemma recv_some:
  assumes "avail s \<noteq> []" "0 < n" "recv s n = (r, bs, s')"
  shows "0 < r \<and> nat r \<le> n \<and> nat r \<le> length (avail s) \<and>
         bs = take (nat r) (avail s) \<and> avail s' = drop (nat r) (avail s)"
  using assms
proof (induction s)
  case Nil
  then show ?case by simp
next
  case (Cons e s)
  show ?case
  proof (cases e)
    case Error
    then show ?thesis using Cons.prems by simp
  next
    case (Data cs)
    show ?thesis
    proof (cases "cs = []")
      case True
      then show ?thesis using Cons Data by simp
    next
      case False
      then show ?thesis using Cons.prems Data by (auto simp: Let_def min_def)
    qed
  qed
qed

lemma ssize_t_of_small: "n < 2 ^ 63 \<Longrightarrow> ssize_t_of n = int n"
  unfolding ssize_t_of_def
  by (simp add: signed_of_nat signed_take_bit_int_eq_self)

lemma int_of_size_small: "n < 2 ^ 31 \<Longrightarrow> int_of_size n = int n"
  unfolding int_of_size_def
  by (simp add: signed_of_nat signed_take_bit_int_eq_self)

lemma recv_all_loop_complete:
  assumes "tot \<le> len" "len - tot \<le> length (avail s)"
  shows "\<exists>s'. recv_all_loop s len tot buf =
              (ssize_t_of len, buf @ take (len - tot) (avail s), s') \<and>
            avail s' = drop (len - tot) (avail s)"
  using assms
proof (induction s len tot buf rule: recv_all_loop.induct)
  case (1 s len tot buf)
  show ?case
  proof (cases "tot < len")
    case False
    then have "tot = len" using "1.prems" by simp
    then show ?thesis by (subst recv_all_loop.simps) simp
  next
    case True
    obtain r bs s1 where rc: "recv s (len - tot) = (r, bs, s1)"
      by (cases "recv s (len - tot)") auto
    have ne: "avail s \<noteq> []" using True "1.prems" by auto
    from recv_some [OF ne _ rc] True
    have r: "0 < r" "nat r \<le> len - tot" "nat r \<le> length (avail s)"
      "bs = take (nat r) (avail s)" "avail s1 = drop (nat r) (avail s)" by auto
    have le: "tot + nat r \<le> len" using r(2) True by simp
    have rest: "len - (tot + nat r) \<le> length (avail s1)"
      using r "1.prems" by simp
    have pos: "\<not> r \<le> 0" using r(1) by simp
    from "1.IH" [OF True rc [symmetric] refl pos le rest]
    obtain s' where s': "recv_all_loop s1 len (tot + nat r) (buf @ bs) =
        (ssize_t_of len, (buf @ bs) @ take (len - (tot + nat r)) (avail s1), s')"
      "avail s' = drop (len - (tot + nat r)) (avail s1)"
      by auto
    have "bs @ take (len - (tot + nat r)) (avail s1) = take (len - tot) (avail s)"
    proof -
      have "len - tot = nat r + (len - (tot + nat r))" using le by simp
      then show ?thesis unfolding r(4,5) by (metis take_add)
    qed
    moreover have "drop (len - (tot + nat r)) (avail s1) = drop (len - tot) (avail s)"
      unfolding r(5) using le by (simp add: add.commute)
    ultimately show ?thesis
      using True rc r(1) s' by (subst recv_all_loop.simps) simp
  qed
qed

lemma recv_all_loop_short:
  assumes "length (avail s) < len - tot"
  shows "fst (recv_all_loop s len tot buf) \<le> 0"
  using assms
proof (induction s len tot buf rule: recv_all_loop.induct)
  case (1 s len tot buf)
  have lt: "tot < len" using "1.prems" by simp
  obtain r bs s1 where rc: "recv s (len - tot) = (r, bs, s1)"
    by (cases "recv s (len - tot)") auto
  show ?case
  proof (cases "r \<le> 0")
    case True
    then show ?thesis using lt rc by (subst recv_all_loop.simps) simp
  next
    case False
    then have ne: "avail s \<noteq> []" using recv_empty [of s "len - tot"] rc by auto
    from recv_some [OF ne _ rc] lt
    have r: "0 < r" "nat r \<le> len - tot" "nat r \<le> length (avail s)"
      "avail s1 = drop (nat r) (avail s)" by auto
    have "length (avail s1) < len - (tot + nat r)"
      using r "1.prems" by simp
    from "1.IH" [OF lt rc [symmetric] refl False this]
    show ?thesis using lt rc False by (subst recv_all_loop.simps) simp
  qed
qed

lemma recvall_loop_complete:
  assumes "tot \<le> len" "len < 2 ^ 31" "len - tot \<le> length (avail s)"
  shows "\<exists>s'. recvall_loop s len tot buf =
              (int len, buf @ take (len - tot) (avail s), s') \<and>
            avail s' = drop (len - tot) (avail s)"
  using assms
proof (induction s len tot buf rule: recvall_loop.induct)
  case (1 s len tot buf)
  show ?case
  proof (cases "tot < len")
    case False
    then have "tot = len" using "1.prems" by simp
    then show ?thesis using "1.prems"(2)
      by (subst recvall_loop.simps) (simp add: int_of_size_small)
  next
    case True
    have cast: "nat (int_of_size (len - tot)) = len - tot"
      using "1.prems"(2) by (simp add: int_of_size_small)
    obtain r bs s1 where rc: "recv s (nat (int_of_size (len - tot))) = (r, bs, s1)"
      by (cases "recv s (nat (int_of_size (len - tot)))") auto
    have ne: "avail s \<noteq> []" using True "1.prems" by auto
    from recv_some [OF ne _ rc] True cast
    have r: "0 < r" "nat r \<le> len - tot" "nat r \<le> length (avail s)"
      "bs = take (nat r) (avail s)" "avail s1 = drop (nat r) (avail s)" by auto
    have le: "tot + nat r \<le> len" using r(2) True by simp
    have rest: "len - (tot + nat r) \<le> length (avail s1)"
      using r "1.prems" by simp
    have pos: "\<not> r \<le> 0" using r(1) by simp
    from "1.IH" [OF True rc [symmetric] refl pos le "1.prems"(2) rest]
    obtain s' where s': "recvall_loop s1 len (tot + nat r) (buf @ bs) =
        (int len, (buf @ bs) @ take (len - (tot + nat r)) (avail s1), s')"
      "avail s' = drop (len - (tot + nat r)) (avail s1)"
      by auto
    have "bs @ take (len - (tot + nat r)) (avail s1) = take (len - tot) (avail s)"
    proof -
      have "len - tot = nat r + (len - (tot + nat r))" using le by simp
      then show ?thesis unfolding r(4,5) by (metis take_add)
    qed
    moreover have "drop (len - (tot + nat r)) (avail s1) = drop (len - tot) (avail s)"
      unfolding r(5) using le by (simp add: add.commute)
    ultimately show ?thesis
      using True rc r(1) s' by (subst recvall_loop.simps) simp
  qed
qed

lemma recvall_loop_short:
  assumes "len < 2 ^ 31" "length (avail s) < len - tot"
  shows "fst (recvall_loop s len tot buf) = - 1"
  using assms
proof (induction s len tot buf rule: recvall_loop.induct)
  case (1 s len tot buf)
  have lt: "tot < len" using "1.prems" by simp
  have cast: "nat (int_of_size (len - tot)) = len - tot"
    using "1.prems"(1) by (simp add: int_of_size_small)
  obtain r bs s1 where rc: "recv s (nat (int_of_size (len - tot))) = (r, bs, s1)"
    by (cases "recv s (nat (int_of_size (len - tot)))") auto
  show ?case
  proof (cases "r \<le> 0")
    case True
    then show ?thesis using lt rc by (subst recvall_loop.simps) simp
  next
    case False
    then have ne: "avail s \<noteq> []"
      using recv_empty [of s "nat (int_of_size (len - tot))"] rc by auto
    from recv_some [OF ne _ rc] lt cast
    have r: "0 < r" "nat r \<le> len - tot" "nat r \<le> length (avail s)"
      "avail s1 = drop (nat r) (avail s)" by auto
    have "length (avail s1) < len - (tot + nat r)"
      using r "1.prems" by simp
    from "1.IH" [OF lt rc [symmetric] refl False "1.prems"(1) this]
    show ?thesis using lt rc False by (subst recvall_loop.simps) simp
  qed
qed

lemma recv_all_complete:
  assumes "n \<le> length (avail s)"
  shows "\<exists>s'. recv_all s n = (ssize_t_of n, take n (avail s), s') \<and> avail s' = drop n (avail s)"
  using recv_all_loop_complete [of 0 n s "[]"] assms by (simp add: recv_all_def)

lemma recv_all_short: "length (avail s) < n \<Longrightarrow> fst (recv_all s n) \<le> 0"
  using recv_all_loop_short [of s n 0 "[]"] by (simp add: recv_all_def)

lemma recvall_complete:
  assumes "n < 2 ^ 31" "n \<le> length (avail s)"
  shows "\<exists>s'. recvall s n = (int n, take n (avail s), s') \<and> avail s' = drop n (avail s)"
  using recvall_loop_complete [of 0 n s "[]"] assms by (simp add: recvall_def)

lemma recvall_short: "n < 2 ^ 31 \<Longrightarrow> length (avail s) < n \<Longrightarrow> fst (recvall s n) = - 1"
  using recvall_loop_short [of n s 0 "[]"] by (simp add: recvall_def)

lemma avail_chunks: "avail (map Data chunks @ rest) = concat chunks @ avail rest"
  by (induction chunks) simp_all

text \<open>
  Claim C2. \<open>recv_all s n\<close> of c2.c, for a length within \<open>ssize_t\<close>: if the stream
  delivers at least \<open>n\<close> bytes before it ends or fails, however they are cut into
  arrivals, the call returns \<open>n\<close> with exactly the first \<open>n\<close> bytes in order in the
  buffer and leaves the following bytes in the stream; otherwise it returns a value
  \<open>\<le> 0\<close>, never a count between. So the return value is \<open>n\<close> or a failure. The
  same holds for \<open>recvall\<close> of client.c, whose failure value is \<open>-1\<close>, for a length
  within \<open>int\<close>.
\<close>

theorem recv_all_exact_or_failure:
  assumes "n < 2 ^ 63"
  shows "(n \<le> length (avail s) \<longrightarrow>
            fst (recv_all s n) = int n \<and>
            fst (snd (recv_all s n)) = take n (avail s) \<and>
            avail (snd (snd (recv_all s n))) = drop n (avail s)) \<and>
         (length (avail s) < n \<longrightarrow> fst (recv_all s n) \<le> 0) \<and>
         (length (concat chunks) = n \<longrightarrow>
            fst (recv_all (map Data chunks @ rest) n) = int n \<and>
            fst (snd (recv_all (map Data chunks @ rest) n)) = concat chunks) \<and>
         (n < 2 ^ 31 \<longrightarrow>
            (n \<le> length (avail s) \<longrightarrow>
               fst (recvall s n) = int n \<and> fst (snd (recvall s n)) = take n (avail s)) \<and>
            (length (avail s) < n \<longrightarrow> fst (recvall s n) = - 1))"
proof -
  have a: "fst (recv_all t n) = int n \<and> fst (snd (recv_all t n)) = take n (avail t) \<and>
           avail (snd (snd (recv_all t n))) = drop n (avail t)"
    if "n \<le> length (avail t)" for t
    using recv_all_complete [OF that] assms by (auto simp: ssize_t_of_small)
  have b: "fst (recv_all (map Data chunks @ rest) n) = int n \<and>
           fst (snd (recv_all (map Data chunks @ rest) n)) = concat chunks"
    if "length (concat chunks) = n"
    using a [of "map Data chunks @ rest"] that by (simp add: avail_chunks)
  have c: "fst (recvall s n) = int n \<and> fst (snd (recvall s n)) = take n (avail s)"
    if "n < 2 ^ 31" "n \<le> length (avail s)"
    using recvall_complete [OF that] by auto
  show ?thesis
    using a [of s] b c recv_all_short [of s n] recvall_short [of n s] by blast
qed

theorem recv_all_exact_or_failure_witness:
  "(4::nat) < 2 ^ 63 \<and>
   fst (recv_all [Data ''ab'', Data [], Data ''cde'', Error, Data ''f''] 4) = 4 \<and>
   fst (snd (recv_all [Data ''ab'', Data [], Data ''cde'', Error, Data ''f''] 4)) = ''abcd'' \<and>
   avail (snd (snd (recv_all [Data ''ab'', Data [], Data ''cde'', Error, Data ''f''] 4))) = ''e'' \<and>
   fst (recv_all (map Data [''a'', ''bc'', ''d''] @ [Error]) 4) = 4 \<and>
   fst (snd (recv_all (map Data [''a'', ''bc'', ''d''] @ [Error]) 4)) = ''abcd'' \<and>
   fst (recvall [Data ''ab'', Data [], Data ''cde'', Error, Data ''f''] 4) = 4 \<and>
   fst (recv_all [Data ''ab'', Data [], Data ''cde'', Error, Data ''f''] 6) \<le> 0 \<and>
   fst (recvall [Data ''ab'', Data [], Data ''cde'', Error, Data ''f''] 6) = - 1"
  using recv_all_exact_or_failure [of 4 "[Data ''ab'', Data [], Data ''cde'', Error, Data ''f'']"
      "[''a'', ''bc'', ''d'']" "[Error]"]
    recv_all_exact_or_failure [of 6 "[Data ''ab'', Data [], Data ''cde'', Error, Data ''f'']" "[]" "[]"]
  by simp

section \<open>Properties of the frame codec\<close>

lemma send_ok:
  "0 < sends_left sk \<Longrightarrow>
   send sk bytes = (True, sk \<lparr> sent := sent sk @ bytes, sends_left := sends_left sk - 1 \<rparr>)"
  by (simp add: send_def)

lemma send_content_sent:
  assumes "length content \<le> BUFFER_SIZE * sends_left sk"
  shows "sent (send_content sk content) = sent sk @ content"
  using assms
proof (induction sk content rule: send_content.induct)
  case (1 sk content)
  show ?case
  proof (cases "content = []")
    case True
    then show ?thesis by (subst send_content.simps) (simp add: BUFFER_SIZE_def)
  next
    case False
    then have pos: "0 < sends_left sk" using "1.prems" by (cases "sends_left sk") auto
    let ?s1 = "sk \<lparr> sent := sent sk @ take BUFFER_SIZE content, sends_left := sends_left sk - 1 \<rparr>"
    have snd: "send sk (take BUFFER_SIZE content) = (True, ?s1)" using pos by (rule send_ok)
    have gt: "length (take BUFFER_SIZE content) > 0" using False by (simp add: BUFFER_SIZE_def)
    have "length (drop BUFFER_SIZE content) \<le> BUFFER_SIZE * sends_left ?s1"
      using "1.prems" pos by (simp add: right_diff_distrib')
    from "1.IH" [OF refl refl gt snd [symmetric] refl this]
    have "sent (send_content ?s1 (drop BUFFER_SIZE content)) = sent sk @ content"
      by simp
    then show ?thesis using snd gt by (subst send_content.simps) (simp add: Let_def)
  qed
qed

lemma send_file_by_path_sent:
  assumes "length content div BUFFER_SIZE + 4 \<le> k"
  shows "sent (send_file_by_path (fresh_sock k) filepath (Some content)) =
           mem_le 4 (htonl (word_of_nat (length (path_filename filepath)))) @
           path_filename filepath @
           mem_le 8 (htobe64_custom (word_of_int (ftell_end (length content)))) @
           content"
proof -
  let ?s3 = "\<lparr> sent = mem_le 4 (htonl (word_of_nat (length (path_filename filepath)))) @
           path_filename filepath @
           mem_le 8 (htobe64_custom (word_of_int (ftell_end (length content)))), sends_left = k - 3 \<rparr>"
  have k: "3 < k" using assms by simp
  have "length content < BUFFER_SIZE * (length content div BUFFER_SIZE + 1)"
    by (simp add: BUFFER_SIZE_def dividend_less_times_div)
  also have "\<dots> \<le> BUFFER_SIZE * (k - 3)" using assms by (intro mult_le_mono2) simp
  finally have "length content \<le> BUFFER_SIZE * sends_left ?s3" by simp
  from send_content_sent [OF this]
  have "sent (send_content ?s3 content) = sent ?s3 @ content" .
  moreover have "send_file_by_path (fresh_sock k) filepath (Some content) = send_content ?s3 content"
    using k
    by (simp add: send_file_by_path_def fresh_sock_def send_def Let_def numeral_3_eq_3
        FILENAME_LENGTH_BYTES_def FILE_CONTENT_LENGTH_BYTES_def)
  ultimately show ?thesis by simp
qed


lemma unat_word_of_nat_32: "n < 2 ^ 32 \<Longrightarrow> unat (word_of_nat n :: 32 word) = n"
  by (simp add: unat_of_nat)

lemma unat_word_of_nat_64: "n < 2 ^ 64 \<Longrightarrow> unat (word_of_nat n :: 64 word) = n"
  by (simp add: unat_of_nat)

lemma unat_ftell_64: "n < 2 ^ 31 \<Longrightarrow> unat (word_of_int (ftell_end n) :: 64 word) = n"
  by (simp add: ftell_end_def unat_word_of_nat_64)

lemma c2_read_header_wire:
  assumes "name \<noteq> []" "length name < 2 ^ 32"
    and "avail s = mem_le 4 (htonl (word_of_nat (length name))) @ name @
                   mem_le 8 (htobe64_custom clen) @ rest"
  shows "fst (c2_read_header True s) = Header name (unat clen) \<and>
         avail (snd (c2_read_header True s)) = rest"
proof -
  let ?L = "length name"
  have "4 \<le> length (avail s)" unfolding assms(3) by simp
  from recv_all_complete [OF this]
  obtain s1 where s1: "recv_all s 4 = (ssize_t_of 4, mem_le 4 (htonl (word_of_nat ?L)), s1)"
    "avail s1 = name @ mem_le 8 (htobe64_custom clen) @ rest"
    unfolding assms(3) by auto
  have len: "unat (ntohl (load_le (mem_le 4 (htonl (word_of_nat ?L :: 32 word))))) = ?L"
    using assms(2) by (simp add: ntohl_load_wire unat_word_of_nat_32)
  have "?L \<le> length (avail s1)" unfolding s1(2) by simp
  from recv_all_complete [OF this]
  obtain s2 where s2: "recv_all s1 ?L = (ssize_t_of ?L, name, s2)"
    "avail s2 = mem_le 8 (htobe64_custom clen) @ rest"
    unfolding s1(2) by auto
  have "8 \<le> length (avail s2)" unfolding s2(2) by simp
  from recv_all_complete [OF this]
  obtain s3 where s3: "recv_all s2 8 = (ssize_t_of 8, mem_le 8 (htobe64_custom clen), s3)"
    "avail s3 = rest"
    unfolding s2(2) by auto
  have r: "ssize_t_of 4 = 4" "ssize_t_of 8 = 8" "0 < ssize_t_of ?L"
    using assms(1,2) by (simp_all add: ssize_t_of_small)
  have "c2_read_header True s = (Header name (unat clen), s3)"
    using s1(1) s2(1) s3(1) r len
    by (simp add: c2_read_header_def FILENAME_LENGTH_BYTES_def FILE_CONTENT_LENGTH_BYTES_def
        be64toh_load_wire)
  then show ?thesis using s3(2) by simp
qed

text \<open>
  Claim C1. A file sent by \<open>send_file_by_path\<close> of server.c, whose name is not empty
  and shorter than \<open>2^31\<close> bytes and whose content is shorter than \<open>2^31\<close> bytes (the
  range of \<open>ftell\<close>), on a connection that does not break, is decoded by the header
  reader of c2.c to exactly the file name and the byte length of the content, however
  the stream is cut into arrivals; the content is what the stream delivers next. The
  bytes sent are the name length in four bytes and the content length in eight bytes,
  most significant byte first, each in front of its field.
\<close>

theorem frame_header_roundtrip:
  assumes "path_filename filepath \<noteq> []"
    and "length (path_filename filepath) < 2 ^ 31"
    and "length payload < 2 ^ 31"
    and "length payload div BUFFER_SIZE + 4 \<le> k"
    and "avail s = sent (send_file_by_path (fresh_sock k) filepath (Some payload)) @ rest"
  shows "fst (c2_read_header True s) = Header (path_filename filepath) (length payload) \<and>
         avail (snd (c2_read_header True s)) = payload @ rest \<and>
         sent (send_file_by_path (fresh_sock k) filepath (Some payload)) =
           rev (mem_le 4 (word_of_nat (length (path_filename filepath)) :: uint32_t)) @
           path_filename filepath @
           rev (mem_le 8 (word_of_nat (length payload) :: uint64_t)) @
           payload"
proof -
  let ?name = "path_filename filepath"
  let ?clen = "word_of_int (ftell_end (length payload)) :: uint64_t"
  have wire: "sent (send_file_by_path (fresh_sock k) filepath (Some payload)) =
           mem_le 4 (htonl (word_of_nat (length ?name))) @ ?name @
           mem_le 8 (htobe64_custom ?clen) @ payload"
    using assms(4) by (rule send_file_by_path_sent)
  have lt: "length ?name < 2 ^ 32" using assms(2) by simp
  have av: "avail s = mem_le 4 (htonl (word_of_nat (length ?name))) @ ?name @
                   mem_le 8 (htobe64_custom ?clen) @ (payload @ rest)"
    unfolding assms(5) wire by simp
  have clen: "?clen = word_of_nat (length payload)" using assms(3) by (simp add: ftell_end_def)
  have "fst (c2_read_header True s) = Header ?name (unat ?clen) \<and>
        avail (snd (c2_read_header True s)) = payload @ rest"
    using assms(1) lt av by (rule c2_read_header_wire)
  then show ?thesis
    unfolding wire using assms(3) by (simp add: unat_word_of_nat_64 mem_le_htonl mem_le_htobe64 clen)
qed

theorem frame_header_roundtrip_witness:
  "path_filename ''adc_data/f1.txt'' \<noteq> [] \<and>
   length (path_filename ''adc_data/f1.txt'') < 2 ^ 31 \<and>
   length ''ADC:1000'' < 2 ^ 31 \<and>
   length ''ADC:1000'' div BUFFER_SIZE + 4 \<le> 9 \<and>
   fst (c2_read_header True
          [Data (take 5 (sent (send_file_by_path (fresh_sock 9) ''adc_data/f1.txt'' (Some ''ADC:1000'')))),
           Data (drop 5 (sent (send_file_by_path (fresh_sock 9) ''adc_data/f1.txt'' (Some ''ADC:1000''))) @ ''xyz'')])
     = Header ''f1.txt'' 8 \<and>
   avail (snd (c2_read_header True
          [Data (take 5 (sent (send_file_by_path (fresh_sock 9) ''adc_data/f1.txt'' (Some ''ADC:1000'')))),
           Data (drop 5 (sent (send_file_by_path (fresh_sock 9) ''adc_data/f1.txt'' (Some ''ADC:1000''))) @ ''xyz'')]))
     = ''ADC:1000xyz''"
proof -
  let ?W = "sent (send_file_by_path (fresh_sock 9) ''adc_data/f1.txt'' (Some ''ADC:1000''))"
  have n: "path_filename ''adc_data/f1.txt'' = ''f1.txt''"
    by (simp add: path_filename_def after_last_def)
  have h1: "path_filename ''adc_data/f1.txt'' \<noteq> []" unfolding n by simp
  have h2: "length (path_filename ''adc_data/f1.txt'') < 2 ^ 31" unfolding n by simp
  have h3: "length ''ADC:1000'' < 2 ^ 31" by simp
  have h4: "length ''ADC:1000'' div BUFFER_SIZE + 4 \<le> 9" by (simp add: BUFFER_SIZE_def)
  have "avail [Data (take 5 ?W), Data (drop 5 ?W @ ''xyz'')] = take 5 ?W @ drop 5 ?W @ ''xyz''"
    by simp
  also have "\<dots> = (take 5 ?W @ drop 5 ?W) @ ''xyz''" by (simp only: append_assoc)
  also have "\<dots> = ?W @ ''xyz''" by (simp only: append_take_drop_id)
  finally have h5: "avail [Data (take 5 ?W), Data (drop 5 ?W @ ''xyz'')] = ?W @ ''xyz''" .
  from frame_header_roundtrip [OF h1 h2 h3 h4 h5]
  have "fst (c2_read_header True [Data (take 5 ?W), Data (drop 5 ?W @ ''xyz'')]) =
          Header (path_filename ''adc_data/f1.txt'') (length ''ADC:1000'')"
    and "avail (snd (c2_read_header True [Data (take 5 ?W), Data (drop 5 ?W @ ''xyz'')])) =
          ''ADC:1000'' @ ''xyz''"
    by blast+
  then show ?thesis using h1 h2 h3 h4 unfolding n by simp
qed

lemma zero_length_field: "mem_le 8 (htobe64_custom 0) = replicate 8 (CHR 0x00)"
  unfolding mem_le_htobe64
  by (simp add: mem_le_def byte_at_def upt_rec numeral_nat char_of_def)


section \<open>Control frames and the name field\<close>

lemma send_control_message_sent:
  assumes "3 \<le> k"
  shows "sent (send_control_message (fresh_sock k) msg) =
           mem_le 4 (htonl (word_of_nat (length msg))) @ msg @ mem_le 8 (htobe64_custom 0)"
  using assms
  by (simp add: send_control_message_def fresh_sock_def send_def Let_def
      FILENAME_LENGTH_BYTES_def FILE_CONTENT_LENGTH_BYTES_def)

lemma strstr_prefix: "prefix needle hay \<Longrightarrow> strstr hay needle = Some hay"
  by (cases hay) auto

lemma cstr_id: "NUL \<notin> set s \<Longrightarrow> cstr s = s"
  by (auto simp: cstr_def takeWhile_eq_all_conv)

lemma client_read_filename_wire:
  assumes "avail s = mem_le 4 (htonl L) @ bytes"
    and "n = (if 256 \<le> unat L then 255 else unat L)"
    and "n \<le> length bytes"
  shows "\<exists>s2. client_read_filename s = (Some (take n bytes), s2) \<and> avail s2 = drop n bytes"
proof -
  have "4 \<le> length (avail s)" unfolding assms(1) by simp
  from recvall_complete [OF _ this]
  obtain s1 where s1: "recvall s 4 = (4, mem_le 4 (htonl L), s1)" "avail s1 = bytes"
    unfolding assms(1) by auto
  have L: "ntohl (load_le (mem_le 4 (htonl L))) = L" by (rule ntohl_load_wire)
  have cmp: "(256 \<le> L) = (256 \<le> unat L)" by (simp add: word_le_nat_alt)
  have n: "unat (if 256 \<le> L then 255 else L) = n"
    unfolding cmp assms(2) by simp
  have small: "n < 2 ^ 31" unfolding assms(2) by simp
  have "n \<le> length (avail s1)" unfolding s1(2) by (rule assms(3))
  from recvall_complete [OF small this]
  obtain s2 where s2: "recvall s1 n = (int n, take n bytes, s2)" "avail s2 = drop n bytes"
    unfolding s1(2) by auto
  have "client_read_filename s = (Some (take n bytes), s2)"
  proof (cases "256 \<le> L")
    case True
    then have "n = 255" using n by simp
    then show ?thesis
      using s1(1) s2(1) L True
      by (simp add: client_read_filename_def FILENAME_LENGTH_BYTES_def Let_def)
  next
    case False
    then have "unat L = n" using n by simp
    then show ?thesis
      using s1(1) s2(1) L False
      by (simp add: client_read_filename_def FILENAME_LENGTH_BYTES_def Let_def)
  qed
  then show ?thesis using s2(2) by blast
qed

lemma client_end_of_transmission:
  assumes "avail s = mem_le 4 (htonl (word_of_nat (length ''END_OF_TRANSMISSION''))) @
                     ''END_OF_TRANSMISSION'' @ rest"
  shows "fst (client_read_frame alloc_ok s) = Client_end_of_transmission \<and>
         avail (snd (client_read_frame alloc_ok s)) = rest"
proof -
  have u: "unat (word_of_nat (length ''END_OF_TRANSMISSION'') :: 32 word) = 19" by simp
  from client_read_filename_wire [OF assms, of 19]
  obtain s2 where s2: "client_read_filename s = (Some ''END_OF_TRANSMISSION'', s2)" "avail s2 = rest"
    unfolding u by auto
  have "cstr ''END_OF_TRANSMISSION'' = ''END_OF_TRANSMISSION''"
    by (rule cstr_id) (simp add: NUL_def)
  then have "client_read_frame alloc_ok s = (Client_end_of_transmission, s2)"
    using s2(1) by (simp add: client_read_frame_def Let_def)
  then show ?thesis using s2(2) by simp
qed

text \<open>
  Claim C3, on the frame \<open>END_OF_TRANSMISSION\<close> as \<open>send_control_message\<close> writes it:
  \<open>network_thread_func\<close> of client.c leaves its loop on the name alone, and the eight
  bytes of the content length are still in the stream.
\<close>

theorem client_end_of_transmission_leaves_length_unread:
  "fst (client_read_frame True
          [Data (sent (send_control_message (fresh_sock 3) ''END_OF_TRANSMISSION''))])
     = Client_end_of_transmission \<and>
   avail (snd (client_read_frame True
          [Data (sent (send_control_message (fresh_sock 3) ''END_OF_TRANSMISSION''))]))
     = replicate 8 (CHR 0x00)"
proof -
  have "avail [Data (sent (send_control_message (fresh_sock 3) ''END_OF_TRANSMISSION''))] =
        mem_le 4 (htonl (word_of_nat (length ''END_OF_TRANSMISSION''))) @
        ''END_OF_TRANSMISSION'' @ replicate 8 (CHR 0x00)"
    by (simp only: avail.simps append_Nil2 send_control_message_sent [OF order_refl] zero_length_field)
  then show ?thesis by (rule client_end_of_transmission)
qed

theorem client_end_of_transmission_leaves_length_unread_witness:
  "length (avail (snd (client_read_frame True
          [Data (sent (send_control_message (fresh_sock 3) ''END_OF_TRANSMISSION''))]))) = 8 \<and>
   fst (client_read_frame True
          [Data (sent (send_control_message (fresh_sock 3) ''END_OF_TRANSMISSION''))])
     = Client_end_of_transmission"
  using client_end_of_transmission_leaves_length_unread by simp

lemma sentinel_name_props:
  assumes "name = ''END_OF_TRANSMISSION'' \<or> name = ''NO_FILE_SELECTED'' \<or>
           name = ''NO_FILES_IN_FOLDER'' \<or> prefix ''NO_FILE_FOUND:'' name"
  shows "name \<noteq> []" and "c2_is_control name"
  using assms by (auto simp: c2_is_control_def strstr_prefix)

text \<open>
  The loop of c2.c on a control frame: the content length is read, then the loop is
  left, with the stream at the first byte behind the frame.
\<close>

lemma c2_control_frame_stops:
  assumes "name = ''END_OF_TRANSMISSION'' \<or> name = ''NO_FILE_SELECTED'' \<or>
           name = ''NO_FILES_IN_FOLDER'' \<or> prefix ''NO_FILE_FOUND:'' name"
    and "NUL \<notin> set name" and "length name < 2 ^ 32"
    and "avail s = mem_le 4 (htonl (word_of_nat (length name))) @ name @
                   mem_le 8 (htobe64_custom clen) @ rest"
  shows "fst (c2_read_frame True content_alloc_ok s) = C2_control name \<and>
         avail (snd (c2_read_frame True content_alloc_ok s)) = rest"
proof -
  from c2_read_header_wire [OF sentinel_name_props(1) [OF assms(1)] assms(3,4)]
  obtain s3 where s3: "c2_read_header True s = (Header name (unat clen), s3)" "avail s3 = rest"
    by (cases "c2_read_header True s") auto
  have "c2_is_control (cstr name)"
    using sentinel_name_props(2) [OF assms(1)] assms(2) by (simp add: cstr_id)
  then have "c2_read_frame True content_alloc_ok s = (C2_control name, s3)"
    using s3(1) assms(2) by (simp add: c2_read_frame_def cstr_id)
  then show ?thesis using s3(2) by simp
qed

text \<open>The loop of client.c on the three kinds of server message.\<close>

lemma client_message_frame_stops:
  assumes "name = ''NO_FILE_SELECTED'' \<or> name = ''NO_FILES_IN_FOLDER'' \<or>
           prefix ''NO_FILE_FOUND:'' name"
    and "NUL \<notin> set name" and "length name < 256"
    and "avail s = mem_le 4 (htonl (word_of_nat (length name))) @ name @
                   mem_le 8 (htobe64_custom clen) @ rest"
  shows "fst (client_read_frame alloc_ok s) = Client_server_message name \<and>
         avail (snd (client_read_frame alloc_ok s)) = rest"
proof -
  have u: "unat (word_of_nat (length name) :: 32 word) = length name"
    using assms(3) by (simp add: unat_of_nat)
  have n: "length name = (if 256 \<le> unat (word_of_nat (length name) :: 32 word) then 255
                          else unat (word_of_nat (length name) :: 32 word))"
    unfolding u using assms(3) by simp
  from client_read_filename_wire [OF assms(4) n]
  obtain s2 where s2: "client_read_filename s = (Some name, s2)"
    "avail s2 = mem_le 8 (htobe64_custom clen) @ rest"
    by auto
  have "8 \<le> length (avail s2)" unfolding s2(2) by simp
  from recvall_complete [OF _ this]
  obtain s3 where s3: "recvall s2 8 = (8, mem_le 8 (htobe64_custom clen), s3)" "avail s3 = rest"
    unfolding s2(2) by auto
  have ne: "name \<noteq> ''END_OF_TRANSMISSION''" using assms(1) by auto
  have msg: "strstr name ''NO_FILE_FOUND:'' \<noteq> None \<or>
         name = ''NO_FILE_SELECTED'' \<or> name = ''NO_FILES_IN_FOLDER''"
    using assms(1) by (auto simp: strstr_prefix)
  have "client_read_frame alloc_ok s = (Client_server_message name, s3)"
    using s2(1) s3(1) ne msg assms(2)
    by (simp add: client_read_frame_def cstr_id FILE_CONTENT_LENGTH_BYTES_def Let_def)
  then show ?thesis using s3(2) by simp
qed

lemma client_file_frame:
  assumes "name \<noteq> ''END_OF_TRANSMISSION''" "strstr name ''NO_FILE_FOUND:'' = None"
    "name \<noteq> ''NO_FILE_SELECTED''" "name \<noteq> ''NO_FILES_IN_FOLDER''"
    and "NUL \<notin> set name" and "length name < 256"
    and "NUL \<notin> set content" and "length content < 2 ^ 31"
    and "avail s = mem_le 4 (htonl (word_of_nat (length name))) @ name @
                   mem_le 8 (htobe64_custom (word_of_nat (length content))) @ content @ rest"
  shows "fst (client_read_frame True s) = Client_file name content \<and>
         avail (snd (client_read_frame True s)) = rest"
proof -
  have u: "unat (word_of_nat (length name) :: 32 word) = length name"
    using assms(6) by (simp add: unat_of_nat)
  have n: "length name = (if 256 \<le> unat (word_of_nat (length name) :: 32 word) then 255
                          else unat (word_of_nat (length name) :: 32 word))"
    unfolding u using assms(6) by simp
  from client_read_filename_wire [OF assms(9) n]
  obtain s2 where s2: "client_read_filename s = (Some name, s2)"
    "avail s2 = mem_le 8 (htobe64_custom (word_of_nat (length content))) @ content @ rest"
    by auto
  have "8 \<le> length (avail s2)" unfolding s2(2) by simp
  from recvall_complete [OF _ this]
  obtain s3 where s3: "recvall s2 8 = (8, mem_le 8 (htobe64_custom (word_of_nat (length content))), s3)"
    "avail s3 = content @ rest"
    unfolding s2(2) by auto
  have len: "unat (ntohll_custom (load_le (mem_le 8 (htobe64_custom (word_of_nat (length content) :: 64 word)))))
               = length content"
    using assms(8) be64toh_load_wire [of "word_of_nat (length content)"]
    by (simp add: ntohll_custom_eq be64toh_custom_eq unat_of_nat)
  have "length content \<le> length (avail s3)" unfolding s3(2) by simp
  from recvall_complete [OF assms(8) this]
  obtain s4 where s4: "recvall s3 (length content) = (int (length content), content, s4)"
    "avail s4 = rest"
    unfolding s3(2) by auto
  have "client_read_frame True s = (Client_file name content, s4)"
    using s2(1) s3(1) s4(1) len assms(1-5,7)
    by (simp add: client_read_frame_def cstr_id FILE_CONTENT_LENGTH_BYTES_def Let_def)
  then show ?thesis using s4(2) by simp
qed










section \<open>The configuration frame is decoded by text search\<close>

lemma strstr_None_iff:
  "strstr hay needle = None \<longleftrightarrow> (\<forall>i \<le> length hay. \<not> prefix needle (drop i hay))"
proof (induction hay)
  case Nil
  show ?case by auto
next
  case (Cons h hay)
  have "(\<forall>i \<le> length (h # hay). \<not> prefix needle (drop i (h # hay))) \<longleftrightarrow>
        \<not> prefix needle (h # hay) \<and> (\<forall>i \<le> length hay. \<not> prefix needle (drop i hay))"
  proof
    assume a: "\<forall>i \<le> length (h # hay). \<not> prefix needle (drop i (h # hay))"
    have "\<not> prefix needle (h # hay)" using a [rule_format, of 0] by simp
    moreover have "\<not> prefix needle (drop i hay)" if "i \<le> length hay" for i
      using a [rule_format, of "Suc i"] that by simp
    ultimately show "\<not> prefix needle (h # hay) \<and> (\<forall>i \<le> length hay. \<not> prefix needle (drop i hay))"
      by blast
  next
    assume b: "\<not> prefix needle (h # hay) \<and> (\<forall>i \<le> length hay. \<not> prefix needle (drop i hay))"
    show "\<forall>i \<le> length (h # hay). \<not> prefix needle (drop i (h # hay))"
    proof (intro allI impI)
      fix i assume "i \<le> length (h # hay)"
      then show "\<not> prefix needle (drop i (h # hay))" using b by (cases i) auto
    qed
  qed
  then show ?case using Cons.IH by simp
qed

lemma strstr_first:
  assumes "\<forall>i < length pre. \<not> prefix needle (drop i (pre @ suf))" "prefix needle suf"
  shows "strstr (pre @ suf) needle = Some suf"
  using assms
proof (induction pre)
  case Nil
  then show ?case by (simp add: strstr_prefix)
next
  case (Cons p pre)
  have "\<not> prefix needle ((p # pre) @ suf)" using Cons.prems(1) [rule_format, of 0] by simp
  moreover have "\<forall>i < length pre. \<not> prefix needle (drop i (pre @ suf))"
  proof (intro allI impI)
    fix i assume "i < length pre"
    then show "\<not> prefix needle (drop i (pre @ suf))"
      using Cons.prems(1) [rule_format, of "Suc i"] by simp
  qed
  ultimately show ?case using Cons.IH Cons.prems(2) by simp
qed

lemma isdigit_props: "isdigit c \<Longrightarrow> \<not> isspace c \<and> c \<noteq> CHR ''-'' \<and> c \<noteq> CHR ''+'' \<and>
    0 \<le> digit_val c \<and> digit_val c \<le> 9"
  by (auto simp: isdigit_def isspace_def digit_val_def)

lemma digits_val_nonneg:
  assumes "\<forall>c \<in> set ds. isdigit c" "0 \<le> a"
  shows "0 \<le> foldl (\<lambda>a d. 10 * a + digit_val d) a ds"
  using assms
proof (induction ds arbitrary: a)
  case Nil
  then show ?case by simp
next
  case (Cons d ds)
  have "0 \<le> 10 * a + digit_val d" using Cons.prems isdigit_props [of d] by simp
  then show ?case using Cons by simp
qed


lemma isspace_props: "isspace c \<Longrightarrow> \<not> isdigit c \<and> c \<noteq> CHR ''-'' \<and> c \<noteq> CHR ''+''"
  by (auto simp: isdigit_def isspace_def)

lemma dropWhile_all: "\<forall>c \<in> set sp. P c \<Longrightarrow> dropWhile P sp = []"
  by (induction sp) auto

lemma scan_d_number:
  assumes "\<forall>c \<in> set sp. isspace c" "sg = [] \<or> sg = ''-'' \<or> sg = ''+''"
    and "ds \<noteq> []" "\<forall>c \<in> set ds. isdigit c" "rest = [] \<or> \<not> isdigit (hd rest)"
  shows "scan_d (sp @ sg @ ds @ rest) = Some (if sg = ''-'' then - digits_val ds else digits_val ds)"
proof -
  obtain d ds' where ds: "ds = d # ds'" using assms(3) by (cases ds) auto
  have d: "isdigit d" using assms(4) ds by simp
  have tw: "takeWhile isdigit (ds @ rest) = ds"
    using assms(4,5) by (cases rest) (auto simp: takeWhile_append2)
  have sp: "dropWhile isspace (sp @ sg @ ds @ rest) = dropWhile isspace (sg @ ds @ rest)"
    using assms(1) by (simp add: dropWhile_append2)
  from assms(2) show ?thesis
  proof (elim disjE)
    assume sg: "sg = []"
    have "dropWhile isspace (sg @ ds @ rest) = d # ds' @ rest"
      unfolding sg ds using isdigit_props [OF d] by simp
    then show ?thesis
      unfolding scan_d_def sp using isdigit_props [OF d] tw sg ds
      by (simp add: Let_def)
  next
    assume sg: "sg = ''-''"
    have "dropWhile isspace (sg @ ds @ rest) = CHR ''-'' # ds @ rest"
      unfolding sg by (simp add: isspace_def)
    then show ?thesis
      unfolding scan_d_def sp using tw sg assms(3)
      by (simp add: Let_def)
  next
    assume sg: "sg = ''+''"
    have "dropWhile isspace (sg @ ds @ rest) = CHR ''+'' # ds @ rest"
      unfolding sg by (simp add: isspace_def)
    then show ?thesis
      unfolding scan_d_def sp using tw sg assms(3)
      by (simp add: Let_def)
  qed
qed

lemma scan_d_no_number:
  assumes "\<forall>c \<in> set sp. isspace c" "sg = [] \<or> sg = ''-'' \<or> sg = ''+''"
    and "rest = [] \<or> \<not> isdigit (hd rest)"
    and "sg = [] \<longrightarrow> rest = [] \<or>
           (\<not> isspace (hd rest) \<and> hd rest \<noteq> CHR ''-'' \<and> hd rest \<noteq> CHR ''+'')"
  shows "scan_d (sp @ sg @ rest) = None"
proof -
  have tw: "takeWhile isdigit rest = []" using assms(3) by (cases rest) auto
  have sp: "dropWhile isspace (sp @ sg @ rest) = dropWhile isspace (sg @ rest)"
    using assms(1) by (simp add: dropWhile_append2)
  from assms(2) show ?thesis
  proof (elim disjE)
    assume sg: "sg = []"
    show ?thesis
    proof (cases rest)
      case Nil
      then show ?thesis
        unfolding scan_d_def sg by (simp add: Let_def dropWhile_all [OF assms(1)] del: dropWhile_eq_Nil_conv)
    next
      case (Cons c r)
      then have c: "\<not> isspace c" "c \<noteq> CHR ''-''" "c \<noteq> CHR ''+''" "\<not> isdigit c"
        using assms(3,4) sg by auto
      have "dropWhile isspace (sp @ c # r) = c # r"
        using assms(1) c by (simp add: dropWhile_append2)
      then show ?thesis unfolding scan_d_def sg Cons using c by (simp add: Let_def)
    qed
  next
    assume sg: "sg = ''-''"
    have "dropWhile isspace (sg @ rest) = CHR ''-'' # rest"
      unfolding sg by (simp add: isspace_def)
    then show ?thesis unfolding scan_d_def sp using tw by (simp add: Let_def)
  next
    assume sg: "sg = ''+''"
    have "dropWhile isspace (sg @ rest) = CHR ''+'' # rest"
      unfolding sg by (simp add: isspace_def)
    then show ?thesis unfolding scan_d_def sp using tw by (simp add: Let_def)
  qed
qed

lemma scan_s_word:
  assumes "\<forall>c \<in> set sp. isspace c" "w \<noteq> []" "\<forall>c \<in> set w. \<not> isspace c"
    and "rest = [] \<or> isspace (hd rest)"
  shows "scan_s (sp @ w @ rest) = Some w"
proof -
  obtain c w' where w: "w = c # w'" using assms(2) by (cases w) auto
  have sp: "dropWhile isspace (sp @ w @ rest) = w @ rest"
    using assms(1,3) w by (simp add: dropWhile_append2)
  have tw: "takeWhile (\<lambda>c. \<not> isspace c) (w @ rest) = w"
    using assms(3,4) by (cases rest) (auto simp: takeWhile_append2)
  show ?thesis unfolding scan_s_def sp using tw assms(2) by (simp add: Let_def)
qed

lemma scan_s_blank:
  assumes "\<forall>c \<in> set sp. isspace c"
  shows "scan_s sp = None"
proof -
  have dw: "dropWhile isspace sp = []" using assms by (rule dropWhile_all)
  show ?thesis unfolding scan_s_def dw by (simp add: Let_def)
qed

lemma c2_receive_config_wire:
  assumes "payload \<noteq> []" "length payload < 2 ^ 32"
    and "avail s = mem_le 4 (htonl (word_of_nat (length payload))) @ payload @ rest"
  shows "fst (c2_receive_config True s) =
           Config (c2_parse_interval payload) (c2_parse_mode payload) \<and>
         avail (snd (c2_receive_config True s)) = rest"
proof -
  let ?L = "length payload"
  have "4 \<le> length (avail s)" unfolding assms(3) by simp
  from recv_all_complete [OF this]
  obtain s1 where s1: "recv_all s 4 = (ssize_t_of 4, mem_le 4 (htonl (word_of_nat ?L)), s1)"
    "avail s1 = payload @ rest"
    unfolding assms(3) by auto
  have len: "unat (ntohl (load_le (mem_le 4 (htonl (word_of_nat ?L :: 32 word))))) = ?L"
    using assms(2) by (simp add: ntohl_load_wire unat_word_of_nat_32)
  have "?L \<le> length (avail s1)" unfolding s1(2) by simp
  from recv_all_complete [OF this]
  obtain s2 where s2: "recv_all s1 ?L = (ssize_t_of ?L, payload, s2)" "avail s2 = rest"
    unfolding s1(2) by auto
  have r: "ssize_t_of 4 = 4" "0 < ssize_t_of ?L"
    using assms(1,2) by (simp_all add: ssize_t_of_small)
  have "c2_receive_config True s =
          (Config (c2_parse_interval payload) (c2_parse_mode payload), s2)"
    using s1(1) s2(1) r len
    by (simp add: c2_receive_config_def CONFIG_LENGTH_BYTES_def)
  then show ?thesis using s2(2) by simp
qed

text \<open>
  Claim C9, as amended. For every non-empty configuration payload that arrives behind
  its length, c2.c decodes the payload as a C string, the bytes before its first
  \<open>NUL\<close>. The interval is the integer (white space, an optional sign, decimal digits)
  that follows the first occurrence of the text \<open>INTERVAL:\<close> anywhere in that string,
  and the mode is the word without white space that follows the first occurrence of the
  text \<open>MODE:\<close>. The defaults 20 and \<open>interval\<close> are kept when the text does not
  occur in the string and when no number, respectively no word, follows it. The number
  is one that fits an \<open>int\<close> and the word one that fits \<open>char mode[50]\<close>.
\<close>

theorem c2_config_decoding:
  "(payload \<noteq> [] \<and> length payload < 2 ^ 32 \<and>
    avail s = mem_le 4 (htonl (word_of_nat (length payload))) @ payload @ more_bytes \<longrightarrow>
      fst (c2_receive_config True s) =
        Config (c2_parse_interval payload) (c2_parse_mode payload)) \<and>
   ((\<forall>i \<le> length (cstr payload). \<not> prefix ''INTERVAL:'' (drop i (cstr payload))) \<longrightarrow>
      c2_parse_interval payload = Some 20) \<and>
   (cstr payload = pre @ ''INTERVAL:'' @ sp @ sg @ ds @ rest \<and>
    (\<forall>i < length pre. \<not> prefix ''INTERVAL:'' (drop i (cstr payload))) \<and>
    (\<forall>c \<in> set sp. isspace c) \<and> (sg = [] \<or> sg = ''-'' \<or> sg = ''+'') \<and>
    ds \<noteq> [] \<and> (\<forall>c \<in> set ds. isdigit c) \<and> (rest = [] \<or> \<not> isdigit (hd rest)) \<and>
    (if sg = ''-'' then digits_val ds \<le> 2 ^ 31 else digits_val ds < 2 ^ 31) \<longrightarrow>
      c2_parse_interval payload = Some (if sg = ''-'' then - digits_val ds else digits_val ds)) \<and>
   (cstr payload = pre @ ''INTERVAL:'' @ sp @ sg @ rest \<and>
    (\<forall>i < length pre. \<not> prefix ''INTERVAL:'' (drop i (cstr payload))) \<and>
    (\<forall>c \<in> set sp. isspace c) \<and> (sg = [] \<or> sg = ''-'' \<or> sg = ''+'') \<and>
    (rest = [] \<or> \<not> isdigit (hd rest)) \<and>
    (sg = [] \<longrightarrow> rest = [] \<or>
       (\<not> isspace (hd rest) \<and> hd rest \<noteq> CHR ''-'' \<and> hd rest \<noteq> CHR ''+'')) \<longrightarrow>
      c2_parse_interval payload = Some 20) \<and>
   ((\<forall>i \<le> length (cstr payload). \<not> prefix ''MODE:'' (drop i (cstr payload))) \<longrightarrow>
      c2_parse_mode payload = Some ''interval'') \<and>
   (cstr payload = pre @ ''MODE:'' @ sp @ w @ rest \<and>
    (\<forall>i < length pre. \<not> prefix ''MODE:'' (drop i (cstr payload))) \<and>
    (\<forall>c \<in> set sp. isspace c) \<and>
    w \<noteq> [] \<and> (\<forall>c \<in> set w. \<not> isspace c) \<and> (rest = [] \<or> isspace (hd rest)) \<and>
    length w < 50 \<longrightarrow>
      c2_parse_mode payload = Some w) \<and>
   (cstr payload = pre @ ''MODE:'' @ sp \<and>
    (\<forall>i < length pre. \<not> prefix ''MODE:'' (drop i (cstr payload))) \<and>
    (\<forall>c \<in> set sp. isspace c) \<longrightarrow>
      c2_parse_mode payload = Some ''interval'')"
proof (intro conjI impI)
  assume "payload \<noteq> [] \<and> length payload < 2 ^ 32 \<and>
    avail s = mem_le 4 (htonl (word_of_nat (length payload))) @ payload @ more_bytes"
  then show "fst (c2_receive_config True s) =
        Config (c2_parse_interval payload) (c2_parse_mode payload)"
    using c2_receive_config_wire [of payload s more_bytes] by blast
next
  assume "\<forall>i \<le> length (cstr payload). \<not> prefix ''INTERVAL:'' (drop i (cstr payload))"
  then have "strstr (cstr payload) ''INTERVAL:'' = None" by (simp only: strstr_None_iff)
  then show "c2_parse_interval payload = Some 20" by (simp add: c2_parse_interval_def)
next
  assume a: "cstr payload = pre @ ''INTERVAL:'' @ sp @ sg @ ds @ rest \<and>
    (\<forall>i < length pre. \<not> prefix ''INTERVAL:'' (drop i (cstr payload))) \<and>
    (\<forall>c \<in> set sp. isspace c) \<and> (sg = [] \<or> sg = ''-'' \<or> sg = ''+'') \<and>
    ds \<noteq> [] \<and> (\<forall>c \<in> set ds. isdigit c) \<and> (rest = [] \<or> \<not> isdigit (hd rest)) \<and>
    (if sg = ''-'' then digits_val ds \<le> 2 ^ 31 else digits_val ds < 2 ^ 31)"
  then have cfg: "cstr payload = pre @ (''INTERVAL:'' @ sp @ sg @ ds @ rest)" by simp
  have "strstr (pre @ (''INTERVAL:'' @ sp @ sg @ ds @ rest)) ''INTERVAL:'' =
          Some (''INTERVAL:'' @ sp @ sg @ ds @ rest)"
    using a unfolding cfg by (intro strstr_first) auto
  moreover have "scan_d (sp @ sg @ ds @ rest) =
      Some (if sg = ''-'' then - digits_val ds else digits_val ds)"
    using a by (intro scan_d_number) auto
  moreover have "0 \<le> digits_val ds"
    unfolding digits_val_def using a by (intro digits_val_nonneg) auto
  ultimately show "c2_parse_interval payload =
      Some (if sg = ''-'' then - digits_val ds else digits_val ds)"
    using a unfolding c2_parse_interval_def cfg by (auto split: if_splits)
next
  assume a: "cstr payload = pre @ ''INTERVAL:'' @ sp @ sg @ rest \<and>
    (\<forall>i < length pre. \<not> prefix ''INTERVAL:'' (drop i (cstr payload))) \<and>
    (\<forall>c \<in> set sp. isspace c) \<and> (sg = [] \<or> sg = ''-'' \<or> sg = ''+'') \<and>
    (rest = [] \<or> \<not> isdigit (hd rest)) \<and>
    (sg = [] \<longrightarrow> rest = [] \<or>
       (\<not> isspace (hd rest) \<and> hd rest \<noteq> CHR ''-'' \<and> hd rest \<noteq> CHR ''+''))"
  then have cfg: "cstr payload = pre @ (''INTERVAL:'' @ sp @ sg @ rest)" by simp
  have "strstr (pre @ (''INTERVAL:'' @ sp @ sg @ rest)) ''INTERVAL:'' =
          Some (''INTERVAL:'' @ sp @ sg @ rest)"
    using a unfolding cfg by (intro strstr_first) auto
  moreover have "scan_d (sp @ sg @ rest) = None"
    using a by (intro scan_d_no_number) blast+
  ultimately show "c2_parse_interval payload = Some 20"
    unfolding c2_parse_interval_def cfg by simp
next
  assume "\<forall>i \<le> length (cstr payload). \<not> prefix ''MODE:'' (drop i (cstr payload))"
  then have "strstr (cstr payload) ''MODE:'' = None" by (simp only: strstr_None_iff)
  then show "c2_parse_mode payload = Some ''interval''" by (simp add: c2_parse_mode_def)
next
  assume a: "cstr payload = pre @ ''MODE:'' @ sp @ w @ rest \<and>
    (\<forall>i < length pre. \<not> prefix ''MODE:'' (drop i (cstr payload))) \<and>
    (\<forall>c \<in> set sp. isspace c) \<and>
    w \<noteq> [] \<and> (\<forall>c \<in> set w. \<not> isspace c) \<and> (rest = [] \<or> isspace (hd rest)) \<and>
    length w < 50"
  then have cfg: "cstr payload = pre @ (''MODE:'' @ sp @ w @ rest)" by simp
  have "strstr (pre @ (''MODE:'' @ sp @ w @ rest)) ''MODE:'' = Some (''MODE:'' @ sp @ w @ rest)"
    using a unfolding cfg by (intro strstr_first) auto
  moreover have "scan_s (sp @ w @ rest) = Some w" using a by (intro scan_s_word) auto
  ultimately show "c2_parse_mode payload = Some w"
    using a unfolding c2_parse_mode_def cfg by simp
next
  assume a: "cstr payload = pre @ ''MODE:'' @ sp \<and>
    (\<forall>i < length pre. \<not> prefix ''MODE:'' (drop i (cstr payload))) \<and>
    (\<forall>c \<in> set sp. isspace c)"
  then have cfg: "cstr payload = pre @ (''MODE:'' @ sp)" by simp
  have "strstr (pre @ (''MODE:'' @ sp)) ''MODE:'' = Some (''MODE:'' @ sp)"
    using a unfolding cfg by (intro strstr_first) auto
  moreover have "scan_s sp = None" using a by (intro scan_s_blank) auto
  ultimately show "c2_parse_mode payload = Some ''interval''"
    unfolding c2_parse_mode_def cfg by simp
qed

text \<open>
  Three payloads. The single key of the first is \<open>MAX_INTERVAL\<close>, so the key
  \<open>INTERVAL\<close> is missing: c2.c decodes the interval 500, not the default 20. The
  second has the key \<open>INTERVAL\<close> with the value 500 on its second line, behind a
  \<open>NUL\<close>: c2.c keeps the default 20. The third is empty, so both keys are missing:
  c2.c decodes nothing and gives up on the connection.
\<close>

theorem substring_key_counterexample:
  "config_keys ''MAX_INTERVAL:500'' = [''MAX_INTERVAL''] \<and>
   fst (c2_receive_config True [Data (mem_le 4 (htonl 16) @ ''MAX_INTERVAL:500'')]) =
     Config (Some 500) (Some ''interval'') \<and>
   config_keys ([CHR 0x00, CHR 0x0A] @ ''INTERVAL:500'') = [''INTERVAL''] \<and>
   fst (c2_receive_config True [Data (mem_le 4 (htonl 14) @ [CHR 0x00, CHR 0x0A] @ ''INTERVAL:500'')]) =
     Config (Some 20) (Some ''interval'') \<and>
   fst (c2_receive_config True [Data (mem_le 4 (htonl 0))]) = Config_lost_data"
proof -
  let ?p = "''MAX_INTERVAL:500''"
  let ?q = "[CHR 0x00, CHR 0x0A] @ ''INTERVAL:500''"
  have k: "config_keys ?p = [''MAX_INTERVAL'']" "config_keys ?q = [''INTERVAL'']"
    by (simp_all add: config_keys_def)
  have i: "c2_parse_interval ?p = Some 500"
    by (simp add: c2_parse_interval_def cstr_def NUL_def scan_d_def isspace_def isdigit_def
        digits_val_def digit_val_def Let_def)
  have m: "c2_parse_mode ?p = Some ''interval''"
    by (simp add: c2_parse_mode_def cstr_def NUL_def)
  have rp: "fst (c2_receive_config True [Data (mem_le 4 (htonl 16) @ ?p)]) =
          Config (c2_parse_interval ?p) (c2_parse_mode ?p)"
    using c2_receive_config_wire [of ?p "[Data (mem_le 4 (htonl 16) @ ?p)]" "[]"]
    by simp
  have iq: "c2_parse_interval ?q = Some 20" "c2_parse_mode ?q = Some ''interval''"
    by (simp_all add: c2_parse_interval_def c2_parse_mode_def cstr_def NUL_def)
  have rq: "fst (c2_receive_config True [Data (mem_le 4 (htonl 14) @ ?q)]) =
          Config (c2_parse_interval ?q) (c2_parse_mode ?q)"
    using c2_receive_config_wire [of ?q "[Data (mem_le 4 (htonl 14) @ ?q)]" "[]"]
    by simp
  have "4 \<le> length (avail [Data (mem_le 4 (htonl 0))])" by simp
  from recv_all_complete [OF this]
  obtain s1 where s1: "recv_all [Data (mem_le 4 (htonl 0))] 4 = (ssize_t_of 4, mem_le 4 (htonl 0), s1)"
    by auto
  have z: "unat (ntohl (load_le (mem_le 4 (htonl 0)))) = 0"
    by (simp add: ntohl_load_wire)
  have r0: "recv_all s1 0 = (0, [], s1)"
    unfolding recv_all_def by (subst recv_all_loop.simps) (simp add: ssize_t_of_small)
  have e: "fst (c2_receive_config True [Data (mem_le 4 (htonl 0))]) = Config_lost_data"
    using s1 z r0
    by (simp add: c2_receive_config_def CONFIG_LENGTH_BYTES_def ssize_t_of_small)
  show ?thesis
    using k i m rp iq rq e by simp
qed

lemma all_less_list_all: "(\<forall>i<n. P i) \<longleftrightarrow> list_all P [0 ..< n]"
  by (auto simp: list_all_iff)

lemma all_le_list_all: "(\<forall>i\<le>n. P i) \<longleftrightarrow> list_all P [0 ..< Suc n]"
  by (auto simp: list_all_iff less_Suc_eq_le)

theorem c2_config_decoding_witness:
  "fst (c2_receive_config True
          [Data (mem_le 4 (htonl 26)),
           Data (''INTERVAL:20'' @ [CHR 0x0A] @ ''MODE:interval'' @ [CHR 0x0A])]) =
     Config (Some 20) (Some ''interval'') \<and>
   strstr (cstr ''FOO:1'') ''INTERVAL:'' = None \<and> c2_parse_interval ''FOO:1'' = Some 20 \<and>
   strstr (cstr ''FOO:1'') ''MODE:'' = None \<and> c2_parse_mode ''FOO:1'' = Some ''interval'' \<and>
   cstr (CHR 0x00 # ''INTERVAL:500'') = [] \<and>
   c2_parse_interval (CHR 0x00 # ''INTERVAL:500'') = Some 20 \<and>
   c2_parse_interval ''INTERVAL: -5'' = Some (- 5) \<and>
   c2_parse_interval ''INTERVAL:abc'' = Some 20 \<and>
   c2_parse_mode (''MODE:'' @ [CHR 0x0A]) = Some ''interval''"
proof -
  let ?A = "''INTERVAL:20'' @ [CHR 0x0A] @ ''MODE:interval'' @ [CHR 0x0A]"
  let ?s = "[Data (mem_le 4 (htonl 26)), Data ?A]"
  let ?Z = "CHR 0x00 # ''INTERVAL:500''"
  have cA: "cstr ?A = ?A" by (simp add: cstr_def NUL_def)
  have r: "fst (c2_receive_config True ?s) = Config (c2_parse_interval ?A) (c2_parse_mode ?A)"
    by (rule mp [OF c2_config_decoding [where payload = ?A and s = ?s and more_bytes = "[]",
            THEN conjunct1]]) simp
  have ia: "c2_parse_interval ?A = Some (if [] = ''-'' then - digits_val ''20'' else digits_val ''20'')"
    by (rule mp [OF c2_config_decoding [where payload = ?A and pre = "[]" and sp = "[]" and sg = "[]"
            and ds = "''20''" and rest = "[CHR 0x0A] @ ''MODE:interval'' @ [CHR 0x0A]",
            THEN conjunct2, THEN conjunct2, THEN conjunct1]])
       (simp add: cstr_def NUL_def isdigit_def digits_val_def digit_val_def)
  have hm: "\<forall>i < length (''INTERVAL:20'' @ [CHR 0x0A]). \<not> prefix ''MODE:'' (drop i (cstr ?A))"
    unfolding cA by (simp only: all_less_list_all) code_simp
  have ma: "c2_parse_mode ?A = Some ''interval''"
    by (rule mp [OF c2_config_decoding [where payload = ?A and pre = "''INTERVAL:20'' @ [CHR 0x0A]" and sp = "[]"
            and w = "''interval''" and rest = "[CHR 0x0A]",
            THEN conjunct2, THEN conjunct2, THEN conjunct2, THEN conjunct2, THEN conjunct2,
            THEN conjunct1]])
       (intro conjI hm, simp_all add: cstr_def NUL_def isspace_def)
  have c1: "fst (c2_receive_config True ?s) = Config (Some 20) (Some ''interval'')"
    using r ia ma by (simp add: digits_val_def digit_val_def)
  have n1: "strstr (cstr ''FOO:1'') ''INTERVAL:'' = None" by (simp add: cstr_def NUL_def)
  have n2: "strstr (cstr ''FOO:1'') ''MODE:'' = None" by (simp add: cstr_def NUL_def)
  have c2: "c2_parse_interval ''FOO:1'' = Some 20"
    by (rule mp [OF c2_config_decoding [where payload = "''FOO:1''",
            THEN conjunct2, THEN conjunct1]]) (simp only: strstr_None_iff [symmetric] n1)
  have c3: "c2_parse_mode ''FOO:1'' = Some ''interval''"
    by (rule mp [OF c2_config_decoding [where payload = "''FOO:1''",
            THEN conjunct2, THEN conjunct2, THEN conjunct2, THEN conjunct2, THEN conjunct1]]) (simp only: strstr_None_iff [symmetric] n2)
  have z: "cstr ?Z = []" by (simp add: cstr_def NUL_def)
  have c4: "c2_parse_interval ?Z = Some 20"
    by (rule mp [OF c2_config_decoding [where payload = ?Z,
            THEN conjunct2, THEN conjunct1]]) (simp add: z)
  have "c2_parse_interval ''INTERVAL: -5'' =
          Some (if ''-'' = ''-'' then - digits_val ''5'' else digits_val ''5'')"
    by (rule mp [OF c2_config_decoding [where payload = "''INTERVAL: -5''" and pre = "[]" and sp = "'' ''"
            and sg = "''-''" and ds = "''5''" and rest = "[]",
            THEN conjunct2, THEN conjunct2, THEN conjunct1]])
       (simp add: cstr_def NUL_def isspace_def isdigit_def digits_val_def digit_val_def)
  then have c5: "c2_parse_interval ''INTERVAL: -5'' = Some (- 5)"
    by (simp add: digits_val_def digit_val_def)
  have c6: "c2_parse_interval ''INTERVAL:abc'' = Some 20"
    by (rule mp [OF c2_config_decoding [where payload = "''INTERVAL:abc''" and pre = "[]" and sp = "[]"
            and sg = "[]" and rest = "''abc''",
            THEN conjunct2, THEN conjunct2, THEN conjunct2, THEN conjunct1]])
       (simp add: cstr_def NUL_def isspace_def isdigit_def)
  have c7: "c2_parse_mode (''MODE:'' @ [CHR 0x0A]) = Some ''interval''"
    by (rule mp [OF c2_config_decoding [where payload = "''MODE:'' @ [CHR 0x0A]" and pre = "[]"
            and sp = "[CHR 0x0A]",
            THEN conjunct2, THEN conjunct2, THEN conjunct2, THEN conjunct2, THEN conjunct2,
            THEN conjunct2]])
       (simp add: cstr_def NUL_def isspace_def)
  show ?thesis
    by (intro conjI c1 n1 c2 n2 c3 z c4 c5 c6 c7)
qed


end
